theory Spec2Isabelle
  imports Complex_Main "HOL-Library.Multiset" "HOL-Library.Product_Lexorder"
begin

section \<open>Numbers, errors and Python indexing\<close>

text \<open>
  The Python floats of the source (retention time, mass-to-charge, intensity, ion
  mobility) are modelled as reals: rounding, infinities and NaN are outside the model.
  Python integers (\<open>num_bins\<close>, bin indices, \<open>min_req\<close>) are \<open>int\<close>; counters
  that only count upwards from zero and list positions are \<open>nat\<close>.
  Every exception the modelled code can raise is a value of \<open>error\<close>, returned as
  \<open>Inl\<close>.
\<close>

datatype error = IndexError | ZeroDivisionError

text \<open>\<open>int(x)\<close> on a float truncates towards zero.\<close>

definition py_int :: "real \<Rightarrow> int" where
  "py_int x = (if 0 \<le> x then \<lfloor>x\<rfloor> else \<lceil>x\<rceil>)"

text \<open>
  \<open>xs[i]\<close> for a Python integer \<open>i\<close>: a negative index counts from the end, anything
  outside \<open>-len .. len - 1\<close> raises.
\<close>

definition py_index :: "nat \<Rightarrow> int \<Rightarrow> error + nat" where
  "py_index n i =
     (if 0 \<le> i \<and> i < int n then Inr (nat i)
      else if - int n \<le> i \<and> i < 0 then Inr (nat (int n + i))
      else Inl IndexError)"

text \<open>\<open>xss[i].append(x)\<close>\<close>

definition append_at :: "'a list list \<Rightarrow> int \<Rightarrow> 'a \<Rightarrow> error + 'a list list" where
  "append_at xss i x =
     (case py_index (length xss) i of
        Inl e \<Rightarrow> Inl e
      | Inr k \<Rightarrow> Inr (xss[k := xss ! k @ [x]]))"

section \<open>Data model of \<open>im_binning.py\<close>\<close>

text \<open>
  An \<open>MSSpectrum\<close> as the source reads and writes it: \<open>getRT\<close>, \<open>getMSLevel\<close>,
  the two arrays of \<open>get_peaks\<close>/\<open>set_peaks\<close> and \<open>getFloatDataArrays\<close>.
  An \<open>MSExperiment\<close> is the list of its spectra, in the order of \<open>addSpectrum\<close>.
\<close>

record MSSpectrum =
  RT :: real
  MSLevel :: nat
  peaks_mz :: "real list"
  peaks_intensity :: "real list"
  FloatDataArrays :: "real list list"

type_synonym MSExperiment = "MSSpectrum list"

text \<open>A point is the four-element list \<open>[RT, MZ, intensity, IM]\<close> of \<open>get_points\<close>.\<close>

record point =
  p_rt :: real
  p_mz :: real
  p_intensity :: real
  p_im :: real

text \<open>The module-level globals of \<open>im_binning.py\<close>.\<close>

record globals =
  bins :: "point list list"
  exps :: "MSExperiment list"
  first_im :: real
  last_im :: real
  delta_im :: real
  num_bins :: int
  bin_size :: real
  bins2 :: "point list list"
  exps2 :: "MSExperiment list"
  offset_im :: real

section \<open>\<open>get_points\<close>\<close>

text \<open>
  \<open>zip(*spec.get_peaks(), spec.getFloatDataArrays()[0])\<close>: the three sequences are
  zipped, stopping at the shortest; a spectrum without a float data array raises
  \<open>IndexError\<close>.
\<close>

definition get_points :: "MSSpectrum \<Rightarrow> error + point list" where
  "get_points spec =
     (case FloatDataArrays spec of
        [] \<Rightarrow> Inl IndexError
      | fda # _ \<Rightarrow>
          Inr (map (\<lambda>(m, i, d). \<lparr>p_rt = RT spec, p_mz = m, p_intensity = i, p_im = d\<rparr>)
                 (zip (peaks_mz spec) (zip (peaks_intensity spec) fda))))"

section \<open>\<open>bin_spectrum\<close>, step 1: assigning points to bins\<close>

text \<open>Lines 162 to 164: the index of the first pass, clamped from above only.\<close>

definition primary_bin_idx :: "globals \<Rightarrow> real \<Rightarrow> error + int" where
  "primary_bin_idx g x =
     (if bin_size g = 0 then Inl ZeroDivisionError
      else let bin_idx = py_int ((x - first_im g) / bin_size g)
           in Inr (if bin_idx \<ge> num_bins g then num_bins g - 1 else bin_idx))"

text \<open>Lines 168 to 173: the index of the second pass (bins shifted by half a bin).\<close>

definition secondary_bin_idx :: "globals \<Rightarrow> real \<Rightarrow> error + int" where
  "secondary_bin_idx g x =
     (if x < offset_im g then Inr 0
      else if bin_size g = 0 then Inl ZeroDivisionError
      else let bin_idx = py_int ((x - offset_im g) / bin_size g) + 1
           in Inr (if bin_idx > num_bins g then num_bins g else bin_idx))"

text \<open>One iteration of the loop of step 1, on \<open>(temp_bins, temp_bins2)\<close>.\<close>

definition assign_point ::
  "globals \<Rightarrow> point list list \<times> point list list \<Rightarrow> point
     \<Rightarrow> error + (point list list \<times> point list list)" where
  "assign_point g tbs p =
     (case primary_bin_idx g (p_im p) of
        Inl e \<Rightarrow> Inl e
      | Inr b \<Rightarrow>
     (case append_at (fst tbs) b p of
        Inl e \<Rightarrow> Inl e
      | Inr tb \<Rightarrow>
     (case secondary_bin_idx g (p_im p) of
        Inl e \<Rightarrow> Inl e
      | Inr b2 \<Rightarrow>
     (case append_at (snd tbs) b2 p of
        Inl e \<Rightarrow> Inl e
      | Inr tb2 \<Rightarrow> Inr (tb, tb2)))))"

fun assign_points ::
  "globals \<Rightarrow> point list list \<times> point list list \<Rightarrow> point list
     \<Rightarrow> error + (point list list \<times> point list list)" where
  "assign_points g tbs [] = Inr tbs"
| "assign_points g tbs (p # ps) =
     (case assign_point g tbs p of
        Inl e \<Rightarrow> Inl e
      | Inr tbs' \<Rightarrow> assign_points g tbs' ps)"

text \<open>
  Lines 147 to 174: the points sorted by ion mobility (\<open>sorted\<close> is stable, as
  \<open>sort_key\<close> is), the fresh \<open>temp_bins\<close> (\<open>num_bins\<close> lists) and \<open>temp_bins2\<close>
  (\<open>num_bins + 1\<close> lists), then the assignment loop.
\<close>

definition assign_bins ::
  "globals \<Rightarrow> point list \<Rightarrow> error + (point list list \<times> point list list)" where
  "assign_bins g points =
     assign_points g
       (replicate (nat (num_bins g)) [], replicate (nat (num_bins g + 1)) [])
       (sort_key p_im points)"

section \<open>\<open>get_extrema\<close> and \<open>setup_bins\<close>\<close>

text \<open>
  \<open>smallest_im\<close> starts as \<open>float('inf')\<close> and \<open>largest_im\<close> as \<open>-1.0\<close>. The
  running minimum is a \<open>real option\<close>, \<open>None\<close> standing for the infinity that is
  still there when no sample has been seen; \<open>x < float('inf')\<close> holds for every
  (finite) \<open>x\<close>.
\<close>

definition extrema_point :: "real option \<times> real \<Rightarrow> point \<Rightarrow> real option \<times> real" where
  "extrema_point acc p =
     (let smallest = (case fst acc of
                        None \<Rightarrow> Some (p_im p)
                      | Some s \<Rightarrow> if p_im p < s then Some (p_im p) else Some s);
          largest = (if p_im p > snd acc then p_im p else snd acc)
      in (smallest, largest))"

fun extrema_loop ::
  "real option \<times> real \<Rightarrow> MSSpectrum list \<Rightarrow> error + (real option \<times> real)" where
  "extrema_loop acc [] = Inr acc"
| "extrema_loop acc (spec # spectra) =
     (case get_points spec of
        Inl e \<Rightarrow> Inl e
      | Inr new_points \<Rightarrow> extrema_loop (foldl extrema_point acc new_points) spectra)"

definition get_extrema :: "MSSpectrum list \<Rightarrow> error + (real option \<times> real)" where
  "get_extrema spectra = extrema_loop (None, -1) spectra"

text \<open>
  The globals before \<open>setup_bins\<close>: the module-level initial values, with \<open>num_bins\<close>
  as the main program sets it from the command line.
\<close>

definition initial_globals :: "int \<Rightarrow> globals" where
  "initial_globals n =
     \<lparr>bins = [], exps = [], first_im = 0, last_im = 0, delta_im = 0, num_bins = n,
      bin_size = 0, bins2 = [], exps2 = [], offset_im = 0\<rparr>"

text \<open>
  \<open>setup_bins\<close> either raises, or finishes with the globals set. When no spectrum has
  any sample, the source goes on with \<open>first_im = inf\<close> and an infinite \<open>bin_size\<close>
  (no point is ever binned with them); the model has no infinities and stops at
  \<open>NonFinite\<close> there. The division \<open>delta_im / num_bins\<close> comes first in the source
  and raises for \<open>num_bins = 0\<close> whatever \<open>delta_im\<close> is.
\<close>

datatype 'a outcome = Raised error | NonFinite | Done 'a

definition setup_bins :: "globals \<Rightarrow> MSSpectrum list \<Rightarrow> globals outcome" where
  "setup_bins g spectra =
     (case get_extrema spectra of
        Inl e \<Rightarrow> Raised e
      | Inr (smallest, largest) \<Rightarrow>
          if num_bins g = 0 then Raised ZeroDivisionError
          else (case smallest of
                  None \<Rightarrow> NonFinite
                | Some first \<Rightarrow>
                    let delta = largest - first;
                        size = delta / real_of_int (num_bins g)
                    in Done (g\<lparr>first_im := first, last_im := largest, delta_im := delta,
                               bin_size := size,
                               bins := bins g @ replicate (nat (num_bins g)) [],
                               exps := exps g @ replicate (nat (num_bins g)) [],
                               offset_im := size / 2 + first,
                               bins2 := bins2 g @ replicate (nat (num_bins g + 1)) [],
                               exps2 := exps2 g @ replicate (nat (num_bins g + 1)) []\<rparr>)))"

section \<open>\<open>bin_spectrum\<close>, steps 2 and 3: summing intensities per m/z\<close>

text \<open>
  Lines 181 to 201 (and 225 to 242, the same code on \<open>temp_bins2\<close>). The loop state
  is the bin's list, mutated in place, and the four counters.
\<close>

record agg_state =
  pts :: "point list"
  mz_start :: nat
  num_mz :: nat
  curr_mz :: real
  running_intensity :: real

text \<open>
  \<open>for k in range(mz_start, mz_start + num_mz): xs[k][2] = v\<close>. In the loop below
  \<open>mz_start + num_mz\<close> is the index of the current point, so every index written
  lies inside the list (lemma \<open>agg_loop_inv\<close>).
\<close>

definition write_run :: "point list \<Rightarrow> nat \<Rightarrow> nat \<Rightarrow> real \<Rightarrow> point list" where
  "write_run xs start n v =
     fold (\<lambda>k ys. ys[k := (ys ! k)\<lparr>p_intensity := v\<rparr>]) [start ..< start + n] xs"

definition agg_step :: "nat \<Rightarrow> agg_state \<Rightarrow> agg_state" where
  "agg_step j s =
     (if p_mz (pts s ! j) = curr_mz s
      then s\<lparr>num_mz := num_mz s + 1,
              running_intensity := running_intensity s + p_intensity (pts s ! j)\<rparr>
      else let xs = write_run (pts s) (mz_start s) (num_mz s) (running_intensity s)
           in s\<lparr>pts := xs, mz_start := j, num_mz := 1, curr_mz := p_mz (xs ! j),
                 running_intensity := p_intensity (xs ! j)\<rparr>)"

text \<open>
  The aggregation of one non-empty bin: sort by m/z (stable), walk, then the last slice.
  The source reads \<open>temp_bins[i][0][1]\<close> and is guarded by the test for an empty bin.
\<close>

definition aggregate :: "point list \<Rightarrow> point list" where
  "aggregate xs =
     (let ys = sort_key p_mz xs;
          s = fold agg_step [0 ..< length ys]
                \<lparr>pts = ys, mz_start = 0, num_mz = 0, curr_mz = p_mz (ys ! 0),
                 running_intensity = 0\<rparr>
      in if num_mz s > 0
         then write_run (pts s) (mz_start s) (num_mz s) (running_intensity s)
         else pts s)"

text \<open>What steps 2 and 3 leave in \<open>temp_bins[i]\<close>: an empty bin is skipped.\<close>

definition aggregate_bin :: "point list \<Rightarrow> point list" where
  "aggregate_bin xs = (if length xs = 0 then xs else aggregate xs)"


section \<open>\<open>bin_spectrum\<close>, steps 2.5 and 3.5: the new spectrum\<close>

text \<open>
  \<open>transpose = list(zip(*temp_bins[i]))\<close>, then a fresh \<open>MSSpectrum\<close> (MS level 1
  by default) with the retention time of the input, the peaks
  \<open>(transpose[1], transpose[2])\<close> and one float data array \<open>transpose[3]\<close>.
\<close>

definition build_spectrum :: "MSSpectrum \<Rightarrow> point list \<Rightarrow> MSSpectrum" where
  "build_spectrum spec xs =
     \<lparr>RT = RT spec, MSLevel = 1, peaks_mz = map p_mz xs,
      peaks_intensity = map p_intensity xs, FloatDataArrays = [map p_im xs]\<rparr>"

text \<open>\<open>bins[i].extend(xs)\<close> and \<open>exps[i].addSpectrum(s)\<close> on a global list.\<close>

definition extend_at :: "'a list list \<Rightarrow> nat \<Rightarrow> 'a list \<Rightarrow> error + 'a list list" where
  "extend_at xss i xs =
     (if i < length xss then Inr (xss[i := xss ! i @ xs]) else Inl IndexError)"

text \<open>
  One iteration of the loop of step 2 (and of step 3) for bin \<open>i\<close>, on the pair of
  the accumulated points and the experiments of that pass.
\<close>

definition pass_bin ::
  "MSSpectrum \<Rightarrow> point list list \<Rightarrow> nat \<Rightarrow> point list list \<times> MSExperiment list
     \<Rightarrow> error + (point list list \<times> MSExperiment list)" where
  "pass_bin spec tb i acc =
     (if i \<ge> length tb then Inl IndexError
      else if length (tb ! i) = 0 then Inr acc
      else let xs = aggregate (tb ! i) in
        (case extend_at (fst acc) i xs of
           Inl e \<Rightarrow> Inl e
         | Inr bs \<Rightarrow>
        (case extend_at (snd acc) i [build_spectrum spec xs] of
           Inl e \<Rightarrow> Inl e
         | Inr es \<Rightarrow> Inr (bs, es))))"

fun pass_loop ::
  "MSSpectrum \<Rightarrow> point list list \<Rightarrow> nat list \<Rightarrow> point list list \<times> MSExperiment list
     \<Rightarrow> error + (point list list \<times> MSExperiment list)" where
  "pass_loop spec tb [] acc = Inr acc"
| "pass_loop spec tb (i # is) acc =
     (case pass_bin spec tb i acc of
        Inl e \<Rightarrow> Inl e
      | Inr acc' \<Rightarrow> pass_loop spec tb is acc')"

section \<open>\<open>bin_spectrum\<close> and the main loop\<close>

definition bin_spectrum :: "globals \<Rightarrow> MSSpectrum \<Rightarrow> error + globals" where
  "bin_spectrum g spec =
     (case get_points spec of
        Inl e \<Rightarrow> Inl e
      | Inr points \<Rightarrow>
     (case assign_bins g points of
        Inl e \<Rightarrow> Inl e
      | Inr (temp_bins, temp_bins2) \<Rightarrow>
     (case pass_loop spec temp_bins [0 ..< nat (num_bins g)] (bins g, exps g) of
        Inl e \<Rightarrow> Inl e
      | Inr (bs, es) \<Rightarrow>
     (case pass_loop spec temp_bins2 [0 ..< nat (num_bins g + 1)] (bins2 g, exps2 g) of
        Inl e \<Rightarrow> Inl e
      | Inr (bs2, es2) \<Rightarrow>
          Inr (g\<lparr>bins := bs, exps := es, bins2 := bs2, exps2 := es2\<rparr>)))))"

text \<open>
  The loop of the main program: only spectra of MS level 1 are binned, in the order of
  the input.
\<close>

fun bin_all :: "globals \<Rightarrow> MSSpectrum list \<Rightarrow> error + globals" where
  "bin_all g [] = Inr g"
| "bin_all g (spec # spectra) =
     (if MSLevel spec \<noteq> 1 then bin_all g spectra
      else (case bin_spectrum g spec of
              Inl e \<Rightarrow> Inl e
            | Inr g' \<Rightarrow> bin_all g' spectra))"

text \<open>The main program up to \<open>find_features\<close>: \<open>setup_bins\<close>, then the loop.\<close>

definition run_binning :: "int \<Rightarrow> MSSpectrum list \<Rightarrow> globals outcome" where
  "run_binning n spectra =
     (case setup_bins (initial_globals n) spectra of
        Raised e \<Rightarrow> Raised e
      | NonFinite \<Rightarrow> NonFinite
      | Done g \<Rightarrow> (case bin_all g spectra of Inl e \<Rightarrow> Raised e | Inr g' \<Rightarrow> Done g'))"

section \<open>\<open>peak_picker_im.py\<close>: picking the peaks of one spectrum\<close>

text \<open>
  A \<open>Peak1D\<close> with its two accessors. The spectrum is the list of its peaks as
  \<open>spec[i]\<close> reads them, after \<open>sortByPosition\<close>.
\<close>

record Peak1D =
  getPos :: real
  getIntensity :: real

text \<open>
  The keyword arguments of \<open>peak_pick\<close>. \<open>window_size\<close> is \<open>None\<close> for the
  default \<open>float('Inf')\<close>, which no distance exceeds.
\<close>

record pick_params =
  min_req :: int
  window_size :: "real option"
  small_peak :: real
  strict :: bool
  sequential :: bool

definition exceeds :: "real \<Rightarrow> real option \<Rightarrow> bool" where
  "exceeds d w = (case w of None \<Rightarrow> False | Some v \<Rightarrow> d > v)"

text \<open>The local variables of one seed (lines 79 to 87).\<close>

record seed_state =
  total_intensity :: real
  left_picked :: nat
  right_picked :: nat
  low_bound :: nat
  high_bound :: nat
  sflag :: bool
  threshold :: int

definition seed_init :: "pick_params \<Rightarrow> Peak1D list \<Rightarrow> nat \<Rightarrow> seed_state" where
  "seed_init P spec i =
     \<lparr>total_intensity = getIntensity (spec ! i), left_picked = 0, right_picked = 0,
      low_bound = i, high_bound = i, sflag = False, threshold = min_req P\<rparr>"

text \<open>A \<open>for\<close> loop with \<open>break\<close>: the body says whether the loop goes on.\<close>

datatype 'a loop = Break 'a | Continue 'a

fun walk :: "(nat \<Rightarrow> 's \<Rightarrow> 's loop) \<Rightarrow> nat list \<Rightarrow> 's \<Rightarrow> 's" where
  "walk body [] s = s"
| "walk body (j # js) s =
     (case body j s of Break s' \<Rightarrow> s' | Continue s' \<Rightarrow> walk body js s')"

text \<open>
  The body of the walk to the left (lines 91 to 112), at index \<open>j\<close>. When the body
  runs at \<open>j\<close>, \<open>low_bound\<close> is \<open>j + 1\<close>, so the subtraction on \<open>nat\<close> never
  meets zero (lemma \<open>walk_left_span\<close>).
\<close>

definition left_step ::
  "pick_params \<Rightarrow> Peak1D list \<Rightarrow> bool list \<Rightarrow> nat \<Rightarrow> nat \<Rightarrow> seed_state \<Rightarrow> seed_state loop" where
  "left_step P spec picked i j s =
     (if picked ! j then Break s
      else if exceeds \<bar>getPos (spec ! j) - getPos (spec ! i)\<bar> (window_size P) then Break s
      else if getIntensity (spec ! j) > getIntensity (spec ! (j + 1))
              \<and> (strict P \<or> sflag s \<or> j + 1 = i) then Break s
      else let s1 = (if getIntensity (spec ! j) > getIntensity (spec ! (j + 1))
                     then s\<lparr>sflag := True, threshold := threshold s + 1\<rparr> else s);
               s2 = s1\<lparr>total_intensity := total_intensity s1 + getIntensity (spec ! j),
                       left_picked := left_picked s1 + 1,
                       low_bound := low_bound s1 - 1\<rparr>
           in if int (left_picked s2) \<ge> threshold s2
                 \<and> getIntensity (spec ! j) \<le> getIntensity (spec ! i) * small_peak P
              then Break s2 else Continue s2)"

text \<open>The body of the walk to the right (lines 122 to 141), at index \<open>j\<close>.\<close>

definition right_step ::
  "pick_params \<Rightarrow> Peak1D list \<Rightarrow> bool list \<Rightarrow> nat \<Rightarrow> nat \<Rightarrow> seed_state \<Rightarrow> seed_state loop" where
  "right_step P spec picked i j s =
     (if picked ! j then Break s
      else if exceeds \<bar>getPos (spec ! j) - getPos (spec ! i)\<bar> (window_size P) then Break s
      else if getIntensity (spec ! j) > getIntensity (spec ! (j - 1))
              \<and> (strict P \<or> sflag s \<or> j - 1 = i) then Break s
      else let s1 = (if getIntensity (spec ! j) > getIntensity (spec ! (j - 1))
                     then s\<lparr>sflag := True, threshold := threshold s + 1\<rparr> else s);
               s2 = s1\<lparr>total_intensity := total_intensity s1 + getIntensity (spec ! j),
                       right_picked := right_picked s1 + 1,
                       high_bound := high_bound s1 + 1\<rparr>
           in if int (right_picked s2) \<ge> threshold s2
                 \<and> getIntensity (spec ! j) \<le> getIntensity (spec ! i) * small_peak P
              then Break s2 else Continue s2)"

text \<open>
  The two walks of one seed (lines 79 to 144). \<open>range(i - 1, -1, -1)\<close> is
  \<open>rev [0..<i]\<close>. \<open>None\<close> is the \<open>continue\<close> of a seed that misses its threshold.
\<close>

definition walk_left :: "pick_params \<Rightarrow> Peak1D list \<Rightarrow> bool list \<Rightarrow> nat \<Rightarrow> seed_state" where
  "walk_left P spec picked i =
     walk (left_step P spec picked i) (rev [0 ..< i]) (seed_init P spec i)"

definition walk_right ::
  "pick_params \<Rightarrow> Peak1D list \<Rightarrow> bool list \<Rightarrow> nat \<Rightarrow> seed_state \<Rightarrow> seed_state" where
  "walk_right P spec picked i s =
     walk (right_step P spec picked i) [i + 1 ..< length spec]
       (s\<lparr>sflag := False, threshold := min_req P\<rparr>)"

definition expand_seed ::
  "pick_params \<Rightarrow> Peak1D list \<Rightarrow> bool list \<Rightarrow> nat \<Rightarrow> seed_state option" where
  "expand_seed P spec picked i =
     (let s1 = walk_left P spec picked i in
      if int (left_picked s1) < threshold s1 then None
      else let s2 = walk_right P spec picked i s1 in
        if int (right_picked s2) < threshold s2 then None else Some s2)"

text \<open>
  Lines 146 to 151: marking the span and summing the weighted positions. The division
  by \<open>total_intensity\<close> raises when it is zero.
\<close>

fun span_loop ::
  "Peak1D list \<Rightarrow> real \<Rightarrow> nat list \<Rightarrow> bool list \<times> real \<Rightarrow> error + (bool list \<times> real)" where
  "span_loop spec ti [] acc = Inr acc"
| "span_loop spec ti (j # js) acc =
     (if ti = 0 then Inl ZeroDivisionError
      else span_loop spec ti js
             ((fst acc)[j := True],
              snd acc + getPos (spec ! j) * (getIntensity (spec ! j) / ti)))"

text \<open>
  The state of the loop over the seeds: the flags, the peaks pushed to \<open>new_spec\<close>,
  and, as a ghost field that the source does not store, the accepted spans
  \<open>(low_bound, high_bound)\<close> in the order of their peaks.
\<close>

record pick_state =
  picked_flags :: "bool list"
  new_spec :: "Peak1D list"
  spans :: "(nat \<times> nat) list"

definition visit_seed ::
  "pick_params \<Rightarrow> Peak1D list \<Rightarrow> nat \<Rightarrow> pick_state \<Rightarrow> error + pick_state" where
  "visit_seed P spec i st =
     (if picked_flags st ! i then Inr st
      else (case expand_seed P spec (picked_flags st) i of
              None \<Rightarrow> Inr st
            | Some s \<Rightarrow>
                (case span_loop spec (total_intensity s) [low_bound s ..< high_bound s + 1]
                        (picked_flags st, 0) of
                   Inl e \<Rightarrow> Inl e
                 | Inr (pk, total_position) \<Rightarrow>
                     Inr \<lparr>picked_flags = pk,
                          new_spec = new_spec st @
                            [\<lparr>getPos = total_position, getIntensity = total_intensity s\<rparr>],
                          spans = spans st @ [(low_bound s, high_bound s)]\<rparr>)))"

fun visit_seeds ::
  "pick_params \<Rightarrow> Peak1D list \<Rightarrow> nat list \<Rightarrow> pick_state \<Rightarrow> error + pick_state" where
  "visit_seeds P spec [] st = Inr st"
| "visit_seeds P spec (i # is) st =
     (case visit_seed P spec i st of
        Inl e \<Rightarrow> Inl e
      | Inr st' \<Rightarrow> visit_seeds P spec is st')"

text \<open>
  The order of the seeds: the indices in order, or, for \<open>sequential=False\<close>, the
  indices of the table \<open>[intensity, i]\<close> sorted in descending order (the entries are
  pairwise different, so this is the ascending order reversed).
\<close>

definition visit_order :: "pick_params \<Rightarrow> Peak1D list \<Rightarrow> nat list" where
  "visit_order P spec =
     (if sequential P then [0 ..< length spec]
      else map snd (rev (sort (map (\<lambda>i. (getIntensity (spec ! i), i)) [0 ..< length spec]))))"

definition pick_spectrum :: "pick_params \<Rightarrow> Peak1D list \<Rightarrow> error + pick_state" where
  "pick_spectrum P spec =
     visit_seeds P spec (visit_order P spec)
       \<lparr>picked_flags = replicate (length spec) False, new_spec = [], spans = []\<rparr>"

section \<open>The specification's formulas and the example inputs\<close>

text \<open>
  The primary bin index in the specification's words: the floor of
  \<open>(im - first_im) / bin_size\<close>, clamped to \<open>[0, num_bins - 1]\<close>.
\<close>

definition spec_primary_bin :: "globals \<Rightarrow> real \<Rightarrow> int" where
  "spec_primary_bin g x = max 0 (min (num_bins g - 1) \<lfloor>(x - first_im g) / bin_size g\<rfloor>)"

text \<open>
  A scan of MS level 1 with two samples, of ion mobility 0 and 2, and the globals that
  \<open>setup_bins\<close> computes from it for two bins.
\<close>

definition ex_scan :: MSSpectrum where
  "ex_scan = \<lparr>RT = 1, MSLevel = 1, peaks_mz = [100, 200], peaks_intensity = [10, 20],
              FloatDataArrays = [[0, 2]]\<rparr>"

definition ex_points :: "point list" where
  "ex_points = [\<lparr>p_rt = 1, p_mz = 100, p_intensity = 10, p_im = 0\<rparr>,
                \<lparr>p_rt = 1, p_mz = 200, p_intensity = 20, p_im = 2\<rparr>]"

definition ex_globals :: globals where
  "ex_globals =
     \<lparr>bins = [[], []], exps = [[], []], first_im = 0, last_im = 2, delta_im = 2,
      num_bins = 2, bin_size = 1, bins2 = [[], [], []], exps2 = [[], [], []],
      offset_im = 1 / 2\<rparr>"


text \<open>
  The ion-mobility values of the samples of one spectrum, and of all the spectra of a
  list, whatever their MS level.
\<close>

definition scan_ims :: "MSSpectrum \<Rightarrow> real list" where
  "scan_ims spec = (case get_points spec of Inl e \<Rightarrow> [] | Inr ps \<Rightarrow> map p_im ps)"

definition all_ims :: "MSSpectrum list \<Rightarrow> real list" where
  "all_ims spectra = concat (map scan_ims spectra)"

text \<open>
  The extrema in the specification's words: the minimum and the maximum over the
  samples of the scans of MS level 1 only.
\<close>

definition spec_extrema :: "MSSpectrum list \<Rightarrow> real \<times> real" where
  "spec_extrema spectra =
     (let ims = all_ims (filter (\<lambda>s. MSLevel s = 1) spectra)
      in (Min (set ims), Max (set ims)))"

text \<open>A scan of MS level 2 whose only sample has ion mobility 5.\<close>

definition ex_scan_ms2 :: MSSpectrum where
  "ex_scan_ms2 = \<lparr>RT = 2, MSLevel = 2, peaks_mz = [150], peaks_intensity = [7],
                  FloatDataArrays = [[5]]\<rparr>"

text \<open>
  A scan of MS level 1 whose only sample has ion mobility 1 (a degenerate range), and
  the globals that \<open>setup_bins\<close> computes from it for one bin.
\<close>

definition ex_flat_scan :: MSSpectrum where
  "ex_flat_scan = \<lparr>RT = 1, MSLevel = 1, peaks_mz = [100], peaks_intensity = [10],
                   FloatDataArrays = [[1]]\<rparr>"

definition ex_flat_globals :: globals where
  "ex_flat_globals =
     \<lparr>bins = [[]], exps = [[]], first_im = 1, last_im = 1, delta_im = 0,
      num_bins = 1, bin_size = 0, bins2 = [[], []], exps2 = [[], []],
      offset_im = 1\<rparr>"





text \<open>
  The temporary bins \<open>(temp_bins, temp_bins2)\<close> that step 1 of \<open>bin_spectrum\<close>
  builds for a scan, and the spectra that steps 2.5 and 3.5 add for one bin of one
  scan: none for an empty bin, one otherwise.
\<close>

definition scan_bins :: "globals \<Rightarrow> MSSpectrum \<Rightarrow> point list list \<times> point list list" where
  "scan_bins g spec =
     (case get_points spec of
        Inl e \<Rightarrow> ([], [])
      | Inr points \<Rightarrow> (case assign_bins g points of Inl e \<Rightarrow> ([], []) | Inr tbs \<Rightarrow> tbs))"

definition synthesized :: "MSSpectrum \<Rightarrow> point list \<Rightarrow> MSSpectrum list" where
  "synthesized spec xs = (if xs = [] then [] else [build_spectrum spec (aggregate xs)])"

text \<open>
  The spectra of one bin after a run: those of the scans of MS level 1, in the order of
  the input, \<open>bin_of\<close> giving the points of the bin for each scan.
\<close>

definition new_spectra ::
  "MSSpectrum list \<Rightarrow> (MSSpectrum \<Rightarrow> point list) \<Rightarrow> MSSpectrum list" where
  "new_spectra spectra bin_of =
     concat (map (\<lambda>s. synthesized s (bin_of s)) (filter (\<lambda>s. MSLevel s = 1) spectra))"

text \<open>Two states of the globals with the same binning parameters.\<close>

definition same_context :: "globals \<Rightarrow> globals \<Rightarrow> bool" where
  "same_context g g' \<longleftrightarrow>
     num_bins g' = num_bins g \<and> bin_size g' = bin_size g
     \<and> first_im g' = first_im g \<and> offset_im g' = offset_im g"

text \<open>
  The globals as \<open>setup_bins\<close> leaves them for a positive number of bins and a
  range that is not degenerate.
\<close>

definition bins_ready :: "globals \<Rightarrow> bool" where
  "bins_ready g \<longleftrightarrow>
     0 < num_bins g \<and> 0 < bin_size g
     \<and> length (bins g) = nat (num_bins g) \<and> length (exps g) = nat (num_bins g)
     \<and> length (bins2 g) = nat (num_bins g + 1) \<and> length (exps2 g) = nat (num_bins g + 1)"

text \<open>The globals after \<open>setup_bins\<close> on \<open>ex_scan\<close> for four bins, and after the run.\<close>

definition ex_setup_globals :: globals where
  "ex_setup_globals =
     \<lparr>bins = [[], [], [], []], exps = [[], [], [], []],
      first_im = 0, last_im = 2, delta_im = 2, num_bins = 4, bin_size = 1 / 2,
      bins2 = [[], [], [], [], []], exps2 = [[], [], [], [], []],
      offset_im = 1 / 4\<rparr>"

definition ex_run_globals :: globals where
  "ex_run_globals =
     \<lparr>bins = [[ex_points ! 0], [], [], [ex_points ! 1]],
      exps = [[build_spectrum ex_scan [ex_points ! 0]], [], [],
              [build_spectrum ex_scan [ex_points ! 1]]],
      first_im = 0, last_im = 2, delta_im = 2, num_bins = 4, bin_size = 1 / 2,
      bins2 = [[ex_points ! 0], [], [], [], [ex_points ! 1]],
      exps2 = [[build_spectrum ex_scan [ex_points ! 0]], [], [], [],
               [build_spectrum ex_scan [ex_points ! 1]]],
      offset_im = 1 / 4\<rparr>"

section \<open>Auxiliary notions for the peak picker\<close>

text \<open>The state that a loop body hands back, whether it breaks or goes on.\<close>

definition loop_state :: "'a loop \<Rightarrow> 'a" where
  "loop_state r = (case r of Break s \<Rightarrow> s | Continue s \<Rightarrow> s)"

text \<open>
  The number of intensity increases that a walk to the left meets on the indices
  \<open>lo, ..., hi - 1\<close> (an increase at \<open>j\<close> is relative to \<open>j + 1\<close>), and a walk to
  the right on the same indices (relative to \<open>j - 1\<close>); the concession flag as a
  number; and what a walk has done to the flag and to the required count.
\<close>

definition increases_left :: "Peak1D list \<Rightarrow> nat \<Rightarrow> nat \<Rightarrow> nat" where
  "increases_left spec lo hi =
     length (filter (\<lambda>j. getIntensity (spec ! j) > getIntensity (spec ! (j + 1))) [lo ..< hi])"

definition increases_right :: "Peak1D list \<Rightarrow> nat \<Rightarrow> nat \<Rightarrow> nat" where
  "increases_right spec lo hi =
     length (filter (\<lambda>j. getIntensity (spec ! j) > getIntensity (spec ! (j - 1))) [lo ..< hi])"




text \<open>
  What a walk to the left from \<open>low_bound = m\<close>, and a walk to the right up to index
  \<open>n\<close>, have done to the state of the seed.
\<close>

definition left_span ::
  "Peak1D list \<Rightarrow> bool list \<Rightarrow> nat \<Rightarrow> seed_state \<Rightarrow> seed_state \<Rightarrow> bool" where
  "left_span spec picked m s s' \<longleftrightarrow>
     low_bound s' \<le> m
     \<and> total_intensity s'
         = total_intensity s + (\<Sum>k = low_bound s' ..< m. getIntensity (spec ! k))
     \<and> left_picked s' = left_picked s + (m - low_bound s')
     \<and> (\<forall>k. low_bound s' \<le> k \<and> k < m \<longrightarrow> \<not> picked ! k)
     \<and> right_picked s' = right_picked s \<and> high_bound s' = high_bound s"

definition right_span ::
  "Peak1D list \<Rightarrow> bool list \<Rightarrow> nat \<Rightarrow> seed_state \<Rightarrow> seed_state \<Rightarrow> bool" where
  "right_span spec picked n s s' \<longleftrightarrow>
     high_bound s \<le> high_bound s' \<and> (high_bound s < n \<longrightarrow> high_bound s' < n)
     \<and> total_intensity s' = total_intensity s
          + (\<Sum>k = high_bound s + 1 ..< high_bound s' + 1. getIntensity (spec ! k))
     \<and> right_picked s' = right_picked s + (high_bound s' - high_bound s)
     \<and> (\<forall>k. high_bound s < k \<and> k \<le> high_bound s' \<longrightarrow> \<not> picked ! k)
     \<and> left_picked s' = left_picked s \<and> low_bound s' = low_bound s"

text \<open>
  The invariant of the loop over the seeds: the flags are exactly the union of the
  accepted spans, which lie inside the spectrum and are pairwise disjoint, and there is
  one peak for each span.
\<close>

definition spans_ok :: "Peak1D list \<Rightarrow> pick_state \<Rightarrow> bool" where
  "spans_ok spec st \<longleftrightarrow>
     length (picked_flags st) = length spec \<and> length (new_spec st) = length (spans st)
     \<and> (\<forall>x\<in>set (spans st). fst x \<le> snd x \<and> snd x < length spec)
     \<and> (\<forall>k<length spec.
           picked_flags st ! k \<longleftrightarrow> (\<exists>x\<in>set (spans st). fst x \<le> k \<and> k \<le> snd x))
     \<and> (\<forall>a b. a < b \<and> b < length (spans st) \<longrightarrow>
            snd (spans st ! a) < fst (spans st ! b)
          \<or> snd (spans st ! b) < fst (spans st ! a))"



definition ex_peaks6 :: "Peak1D list" where
  "ex_peaks6 = [\<lparr>getPos = 1, getIntensity = 1\<rparr>, \<lparr>getPos = 2, getIntensity = 5\<rparr>,
                \<lparr>getPos = 3, getIntensity = 1\<rparr>, \<lparr>getPos = 4, getIntensity = 1\<rparr>,
                \<lparr>getPos = 5, getIntensity = 5\<rparr>, \<lparr>getPos = 6, getIntensity = 1\<rparr>]"


definition ex_params2 :: pick_params where
  "ex_params2 = \<lparr>min_req = 1, window_size = None, small_peak = 1 / 2, strict = False,
                 sequential = True\<rparr>"


section \<open>The example globals come from \<open>setup_bins\<close>\<close>

lemma get_points_ex_scan: "get_points ex_scan = Inr ex_points"
  by (simp add: get_points_def ex_scan_def ex_points_def)

lemma get_extrema_ex_scan: "get_extrema [ex_scan] = Inr (Some 0, 2)"
  by (simp add: get_extrema_def get_points_ex_scan ex_points_def extrema_point_def)

lemma setup_bins_ex_scan: "setup_bins (initial_globals 2) [ex_scan] = Done ex_globals"
  by (simp add: setup_bins_def get_extrema_ex_scan initial_globals_def ex_globals_def
      numeral_2_eq_2 numeral_3_eq_3)

section \<open>The primary bin index\<close>

lemma primary_bin_idx_range:
  assumes "0 < num_bins g" "0 < bin_size g" "first_im g \<le> x"
  shows "primary_bin_idx g x = Inr (spec_primary_bin g x)"
    and "0 \<le> spec_primary_bin g x" and "spec_primary_bin g x < num_bins g"
  using assms
  by (auto simp: primary_bin_idx_def spec_primary_bin_def py_int_def Let_def min_def max_def)





section \<open>Every point goes to one bin of each pass\<close>

lemma py_index_less: "py_index n i = Inr k \<Longrightarrow> k < n"
  by (auto simp: py_index_def split: if_splits)

lemma concat_update_append:
  "k < length xss \<Longrightarrow>
   mset (concat (xss[k := xss ! k @ ys])) = mset (concat xss) + mset ys"
proof (induction xss arbitrary: k)
  case Nil
  then show ?case by simp
next
  case (Cons a xss)
  then show ?case by (cases k) auto
qed

lemma length_sum_update_append:
  "k < length xss \<Longrightarrow>
   sum_list (map length (xss[k := xss ! k @ ys])) = sum_list (map length xss) + length ys"
proof (induction xss arbitrary: k)
  case Nil
  then show ?case by simp
next
  case (Cons a xss)
  then show ?case by (cases k) auto
qed

lemma append_at_Inr:
  assumes "append_at xss i x = Inr yss"
  shows "mset (concat yss) = mset (concat xss) + {#x#}"
    and "sum_list (map length yss) = sum_list (map length xss) + 1"
    and "length yss = length xss"
  using assms
  by (auto simp: append_at_def concat_update_append length_sum_update_append
      split: sum.splits dest: py_index_less)

lemma assign_point_Inr:
  assumes "assign_point g tbs p = Inr tbs'"
  shows "mset (concat (fst tbs')) = mset (concat (fst tbs)) + {#p#}"
    and "mset (concat (snd tbs')) = mset (concat (snd tbs)) + {#p#}"
    and "sum_list (map length (fst tbs')) = sum_list (map length (fst tbs)) + 1"
    and "sum_list (map length (snd tbs')) = sum_list (map length (snd tbs)) + 1"
    and "length (fst tbs') = length (fst tbs)" and "length (snd tbs') = length (snd tbs)"
  using assms
  by (auto simp: assign_point_def split: sum.splits dest: append_at_Inr)

lemma assign_points_Inr:
  assumes "assign_points g tbs ps = Inr tbs'"
  shows "mset (concat (fst tbs')) = mset (concat (fst tbs)) + mset ps
    \<and> mset (concat (snd tbs')) = mset (concat (snd tbs)) + mset ps
    \<and> sum_list (map length (fst tbs')) = sum_list (map length (fst tbs)) + length ps
    \<and> sum_list (map length (snd tbs')) = sum_list (map length (snd tbs)) + length ps
    \<and> length (fst tbs') = length (fst tbs) \<and> length (snd tbs') = length (snd tbs)"
  using assms
proof (induction ps arbitrary: tbs)
  case Nil
  then show ?case by simp
next
  case (Cons p ps)
  from Cons.prems obtain t where t: "assign_point g tbs p = Inr t"
    and r: "assign_points g t ps = Inr tbs'"
    by (auto split: sum.splits)
  from Cons.IH [OF r] assign_point_Inr [OF t] show ?case by simp
qed

lemma concat_replicate_Nil: "concat (replicate n []) = []"
  by (induction n) auto

lemma sum_length_replicate_Nil: "sum_list (map length (replicate n [])) = 0"
  by (induction n) auto

lemma assign_bins_Inr:
  assumes "assign_bins g points = Inr (tb, tb2)"
  shows "mset (concat tb) = mset points" and "mset (concat tb2) = mset points"
    and "sum_list (map length tb) = length points"
    and "sum_list (map length tb2) = length points"
    and "length tb = nat (num_bins g)" and "length tb2 = nat (num_bins g + 1)"
  using assign_points_Inr [OF assms [unfolded assign_bins_def]]
  by (simp_all add: concat_replicate_Nil sum_length_replicate_Nil)

lemma secondary_bin_idx_range:
  assumes "0 < num_bins g" "0 < bin_size g"
  shows "\<exists>b. secondary_bin_idx g x = Inr b \<and> 0 \<le> b \<and> b \<le> num_bins g"
  using assms by (auto simp: secondary_bin_idx_def py_int_def Let_def)

lemma append_at_in_range:
  "0 \<le> b \<Longrightarrow> b < int (length xss) \<Longrightarrow> \<exists>yss. append_at xss b x = Inr yss"
  by (simp add: append_at_def py_index_def)

lemma assign_point_succeeds:
  assumes "0 < num_bins g" "0 < bin_size g" "first_im g \<le> p_im p"
    "length (fst tbs) = nat (num_bins g)" "length (snd tbs) = nat (num_bins g + 1)"
  shows "\<exists>t. assign_point g tbs p = Inr t"
proof -
  from primary_bin_idx_range [OF assms(1-3)] obtain b where
    b: "primary_bin_idx g (p_im p) = Inr b" "0 \<le> b" "b < num_bins g" by blast
  from secondary_bin_idx_range [OF assms(1,2)] obtain c where
    c: "secondary_bin_idx g (p_im p) = Inr c" "0 \<le> c" "c \<le> num_bins g" by blast
  from b assms(4) append_at_in_range [of b "fst tbs" p] obtain t1 where
    t1: "append_at (fst tbs) b p = Inr t1" by auto
  from c assms(5) append_at_in_range [of c "snd tbs" p] obtain t2 where
    t2: "append_at (snd tbs) c p = Inr t2" by auto
  show ?thesis by (simp add: assign_point_def b c t1 t2)
qed

lemma assign_points_succeeds:
  assumes "0 < num_bins g" "0 < bin_size g" "\<forall>p\<in>set ps. first_im g \<le> p_im p"
    "length (fst tbs) = nat (num_bins g)" "length (snd tbs) = nat (num_bins g + 1)"
  shows "\<exists>t. assign_points g tbs ps = Inr t"
  using assms(3-5)
proof (induction ps arbitrary: tbs)
  case Nil
  then show ?case by simp
next
  case (Cons p ps)
  from assign_point_succeeds [OF assms(1,2) _ Cons.prems(2,3), of p] Cons.prems(1)
  obtain t where t: "assign_point g tbs p = Inr t" by auto
  from assign_point_Inr(5,6) [OF t] Cons.prems
  have "\<exists>u. assign_points g t ps = Inr u" by (intro Cons.IH) auto
  with t show ?case by simp
qed

lemma assign_bins_succeeds:
  assumes "0 < num_bins g" "0 < bin_size g" "\<forall>p\<in>set points. first_im g \<le> p_im p"
  shows "\<exists>tb tb2. assign_bins g points = Inr (tb, tb2)"
proof -
  have "\<exists>t. assign_points g
         (replicate (nat (num_bins g)) [], replicate (nat (num_bins g + 1)) [])
         (sort_key p_im points) = Inr t"
    using assms by (intro assign_points_succeeds) auto
  then show ?thesis by (auto simp: assign_bins_def)
qed

lemma assign_bins_ex_points:
  "assign_bins ex_globals ex_points =
     Inr ([[ex_points ! 0], [ex_points ! 1]], [[ex_points ! 0], [], [ex_points ! 1]])"
  by (simp add: assign_bins_def assign_point_def primary_bin_idx_def secondary_bin_idx_def
      append_at_def py_index_def py_int_def ex_globals_def ex_points_def
      numeral_2_eq_2 numeral_3_eq_3)

text \<open>
  Claim C7. Whenever step 1 of \<open>bin_spectrum\<close> completes, the primary bins together
  hold exactly the points of the scan, each once, and so do the secondary bins; the
  number of points over all primary bins and over all secondary bins is the number of
  points of the scan. Step 1 does complete when \<open>num_bins\<close> and \<open>bin_size\<close> are
  positive and no point lies below \<open>first_im\<close>.
\<close>

theorem assign_bins_partition:
  "(assign_bins g points = Inr (tb, tb2) \<longrightarrow>
      mset (concat tb) = mset points \<and> mset (concat tb2) = mset points
      \<and> sum_list (map length tb) = length points
      \<and> sum_list (map length tb2) = length points)
   \<and> (0 < num_bins g \<and> 0 < bin_size g \<and> (\<forall>p\<in>set points. first_im g \<le> p_im p) \<longrightarrow>
      (\<exists>tb' tb2'. assign_bins g points = Inr (tb', tb2')))"
  using assign_bins_Inr(1-4) [of g points tb tb2] assign_bins_succeeds [of g points]
  by blast

theorem assign_bins_partition_witness:
  "assign_bins ex_globals ex_points =
     Inr ([[ex_points ! 0], [ex_points ! 1]], [[ex_points ! 0], [], [ex_points ! 1]])
   \<and> 0 < num_bins ex_globals \<and> 0 < bin_size ex_globals
   \<and> first_im ex_globals \<le> p_im (ex_points ! 0)
   \<and> first_im ex_globals \<le> p_im (ex_points ! 1)
   \<and> sum_list (map length [[ex_points ! 0], [ex_points ! 1]]) = length ex_points
   \<and> sum_list (map length [[ex_points ! 0], [], [ex_points ! 1]]) = length ex_points"
  using assign_bins_partition [of ex_globals ex_points
      "[[ex_points ! 0], [ex_points ! 1]]" "[[ex_points ! 0], [], [ex_points ! 1]]"]
    assign_bins_ex_points
  by (simp add: ex_globals_def ex_points_def)

section \<open>The extrema are taken over every spectrum\<close>

lemma extrema_point_fst:
  "fst (extrema_point acc p) =
     Some (case fst acc of None \<Rightarrow> p_im p | Some s \<Rightarrow> min (p_im p) s)"
  by (auto simp: extrema_point_def min_def split: option.splits)

lemma extrema_point_snd: "snd (extrema_point acc p) = max (p_im p) (snd acc)"
  by (auto simp: extrema_point_def max_def)

lemma foldl_extrema_point_snd:
  "snd (foldl extrema_point acc ps) = Max (insert (snd acc) (set (map p_im ps)))"
proof (induction ps rule: rev_induct)
  case Nil
  then show ?case by simp
next
  case (snoc p ps)
  have "Max (insert (snd acc) (set (map p_im (ps @ [p]))))
      = Max (insert (p_im p) (insert (snd acc) (p_im ` set ps)))"
    by (simp add: insert_commute)
  also have "\<dots> = max (p_im p) (Max (insert (snd acc) (p_im ` set ps)))"
    by (rule Max_insert) auto
  finally show ?case using snoc.IH
    by (simp add: extrema_point_snd)
qed

lemma foldl_extrema_point_fst:
  "ps \<noteq> [] \<Longrightarrow>
   fst (foldl extrema_point acc ps) = Some (Min (set (map p_im ps) \<union> set_option (fst acc)))"
proof (induction ps rule: rev_induct)
  case Nil
  then show ?case by simp
next
  case (snoc p ps)
  show ?case
  proof (cases "ps = []")
    case True
    then show ?thesis
      by (cases "fst acc") (simp_all add: extrema_point_fst)
  next
    case False
    with snoc.IH show ?thesis
      by (simp add: extrema_point_fst)
  qed
qed

lemma get_points_scan_ims:
  "get_points spec = Inr ps \<Longrightarrow> scan_ims spec = map p_im ps"
  by (simp add: scan_ims_def)

lemma get_points_succeeds:
  "FloatDataArrays spec \<noteq> [] \<Longrightarrow> \<exists>ps. get_points spec = Inr ps"
  by (auto simp: get_points_def split: list.splits)

text \<open>The loop over the spectra folds over every sample of every spectrum.\<close>

lemma extrema_loop_all:
  assumes "\<forall>s\<in>set spectra. FloatDataArrays s \<noteq> []"
  shows "\<exists>qs. map p_im qs = all_ims spectra
            \<and> extrema_loop acc spectra = Inr (foldl extrema_point acc qs)"
  using assms
proof (induction spectra arbitrary: acc)
  case Nil
  show ?case by (rule exI [of _ "[]"]) (simp add: all_ims_def)
next
  case (Cons spec spectra)
  from Cons.prems get_points_succeeds [of spec] obtain ps where
    ps: "get_points spec = Inr ps" by auto
  from Cons.IH [of "foldl extrema_point acc ps"] Cons.prems obtain qs where
    qs: "map p_im qs = all_ims spectra"
      "extrema_loop (foldl extrema_point acc ps) spectra
         = Inr (foldl extrema_point (foldl extrema_point acc ps) qs)"
    by auto
  show ?case
    by (rule exI [of _ "ps @ qs"])
      (simp add: ps qs all_ims_def get_points_scan_ims [OF ps] qs(1) [unfolded all_ims_def])
qed

lemma get_extrema_all:
  assumes "\<forall>s\<in>set spectra. FloatDataArrays s \<noteq> []" and "all_ims spectra \<noteq> []"
  shows "get_extrema spectra =
     Inr (Some (Min (set (all_ims spectra))), max (- 1) (Max (set (all_ims spectra))))"
proof -
  from extrema_loop_all [OF assms(1), of "(None, - 1)"] obtain qs where
    qs: "map p_im qs = all_ims spectra"
      "extrema_loop (None, - 1) spectra = Inr (foldl extrema_point (None, - 1) qs)"
    by auto
  from qs(1) assms(2) have ne: "qs \<noteq> []" by auto
  have f: "fst (foldl extrema_point (None, - 1) qs) = Some (Min (set (all_ims spectra)))"
    using foldl_extrema_point_fst [OF ne, of "(None, - 1)"] qs(1) by simp
  have "set (all_ims spectra) \<noteq> {}" using assms(2) by simp
  then have l: "snd (foldl extrema_point (None, - 1) qs)
      = max (- 1) (Max (set (all_ims spectra)))"
    using foldl_extrema_point_snd [of "(None, - 1)" qs] qs(1) by simp
  show ?thesis
    unfolding get_extrema_def qs(2) using f l by (simp add: prod_eq_iff)
qed


text \<open>
  Claim C5, as amended. \<open>get_extrema\<close> never reads the MS level: when every
  spectrum has its ion-mobility array, at least one sample exists and the largest ion
  mobility is not below the start value \<open>-1.0\<close>, the output pair is the minimum and
  the maximum ion mobility over the samples of all the spectra passed in, whatever
  their MS level.
\<close>

theorem get_extrema_over_all_scans:
  assumes "\<forall>s\<in>set spectra. FloatDataArrays s \<noteq> []" and "all_ims spectra \<noteq> []"
    and "- 1 \<le> Max (set (all_ims spectra))"
  shows "get_extrema spectra =
     Inr (Some (Min (set (all_ims spectra))), Max (set (all_ims spectra)))"
  using get_extrema_all [OF assms(1,2)] assms(3) by (simp add: max_def)

theorem get_extrema_over_all_scans_witness:
  "FloatDataArrays ex_scan \<noteq> [] \<and> FloatDataArrays ex_scan_ms2 \<noteq> []
   \<and> all_ims [ex_scan, ex_scan_ms2] = [0, 2, 5]
   \<and> get_extrema [ex_scan, ex_scan_ms2] = Inr (Some 0, 5)"
proof -
  have a: "all_ims [ex_scan, ex_scan_ms2] = [0, 2, 5]"
    by (simp add: all_ims_def scan_ims_def get_points_def ex_scan_def ex_scan_ms2_def)
  have f: "\<forall>s\<in>set [ex_scan, ex_scan_ms2]. FloatDataArrays s \<noteq> []"
    by (simp add: ex_scan_def ex_scan_ms2_def)
  from get_extrema_over_all_scans [OF f] a f show ?thesis by simp
qed

text \<open>
  The claim as stated fails: a scan of MS level 2 moves the maximum from 2, the
  maximum over the scans of MS level 1, to 5.
\<close>

theorem get_extrema_ms2_counterexample:
  "get_extrema [ex_scan, ex_scan_ms2] = Inr (Some 0, 5)
   \<and> spec_extrema [ex_scan, ex_scan_ms2] = (0, 2)"
proof -
  have "get_extrema [ex_scan, ex_scan_ms2] = Inr (Some 0, 5)"
    by (simp add: get_extrema_def extrema_point_def get_points_def ex_scan_def
        ex_scan_ms2_def)
  moreover have "spec_extrema [ex_scan, ex_scan_ms2] = (0, 2)"
    by (simp add: spec_extrema_def all_ims_def scan_ims_def get_points_def ex_scan_def
        ex_scan_ms2_def)
  ultimately show ?thesis by simp
qed

section \<open>No configuration is rejected\<close>

lemma setup_bins_num_bins_zero:
  "num_bins g = 0 \<Longrightarrow> get_extrema spectra = Inr r \<Longrightarrow>
   setup_bins g spectra = Raised ZeroDivisionError"
  by (simp add: setup_bins_def split: prod.splits)

lemma setup_bins_Done:
  assumes "num_bins g \<noteq> 0" "get_extrema spectra = Inr (Some a, b)"
  shows "\<exists>g'. setup_bins g spectra = Done g' \<and> num_bins g' = num_bins g
           \<and> first_im g' = a \<and> last_im g' = b
           \<and> bin_size g' = (b - a) / real_of_int (num_bins g)"
  using assms by (simp add: setup_bins_def Let_def)

lemma sort_key_not_Nil: "xs \<noteq> [] \<Longrightarrow> sort_key f xs \<noteq> []"
  by (metis length_0_conv length_sort)

lemma bin_spectrum_bin_size_zero:
  assumes "bin_size g = 0" "get_points spec = Inr (p # ps)"
  shows "bin_spectrum g spec = Inl ZeroDivisionError"
proof -
  obtain q qs where q: "sort_key p_im (p # ps) = q # qs"
    using sort_key_not_Nil [of "p # ps" p_im] by (cases "sort_key p_im (p # ps)") auto
  have "assign_point g tbs q = Inl ZeroDivisionError" for tbs
    by (simp add: assign_point_def primary_bin_idx_def assms(1))
  then have "assign_points g tbs (q # qs) = Inl ZeroDivisionError" for tbs
    by simp
  then have "assign_bins g (p # ps) = Inl ZeroDivisionError"
    unfolding assign_bins_def q .
  then show ?thesis by (simp add: bin_spectrum_def assms(2))
qed

lemma bin_spectrum_num_bins_negative:
  assumes "num_bins g < 0" "bin_size g \<noteq> 0" "get_points spec = Inr (p # ps)"
  shows "bin_spectrum g spec = Inl IndexError"
proof -
  obtain q qs where q: "sort_key p_im (p # ps) = q # qs"
    using sort_key_not_Nil [of "p # ps" p_im] by (cases "sort_key p_im (p # ps)") auto
  have "append_at [] b q = Inl IndexError" for b :: int
    by (simp add: append_at_def py_index_def)
  then have "assign_point g ([], tb2) q = Inl IndexError" for tb2
    by (simp add: assign_point_def primary_bin_idx_def Let_def assms(2))
  then have "assign_points g ([], tb2) (q # qs) = Inl IndexError" for tb2
    by simp
  moreover have "replicate (nat (num_bins g)) [] = ([] :: point list list)"
    using assms(1) by simp
  ultimately have "assign_bins g (p # ps) = Inl IndexError"
    unfolding assign_bins_def q by simp
  then show ?thesis by (simp add: bin_spectrum_def assms(3))
qed

lemma setup_bins_ex_flat_scan:
  "setup_bins (initial_globals 1) [ex_flat_scan] = Done ex_flat_globals"
  by (simp add: setup_bins_def get_extrema_def get_points_def extrema_point_def
      ex_flat_scan_def initial_globals_def ex_flat_globals_def numeral_2_eq_2)

lemma run_binning_ex_flat_scan: "run_binning 1 [ex_flat_scan] = Raised ZeroDivisionError"
proof -
  have "get_points ex_flat_scan = Inr [\<lparr>p_rt = 1, p_mz = 100, p_intensity = 10, p_im = 1\<rparr>]"
    by (simp add: get_points_def ex_flat_scan_def)
  then have "bin_spectrum ex_flat_globals ex_flat_scan = Inl ZeroDivisionError"
    by (intro bin_spectrum_bin_size_zero) (simp_all add: ex_flat_globals_def)
  moreover have "MSLevel ex_flat_scan = 1" by (simp add: ex_flat_scan_def)
  ultimately show ?thesis
    by (simp add: run_binning_def setup_bins_ex_flat_scan)
qed

text \<open>
  Claim C6, as amended. The source has no configuration check and no
  \<open>ConfigurationError\<close>. With \<open>num_bins = 0\<close>, \<open>setup_bins\<close> raises
  \<open>ZeroDivisionError\<close>, before any binning. With \<open>num_bins \<noteq> 0\<close> and a degenerate
  range, \<open>setup_bins\<close> completes with \<open>bin_size = 0\<close> and \<open>bin_spectrum\<close> raises
  \<open>ZeroDivisionError\<close> on every scan that has a point. With \<open>num_bins < 0\<close> and a
  range that is not degenerate, \<open>setup_bins\<close> completes and \<open>bin_spectrum\<close> raises
  \<open>IndexError\<close> on every scan that has a point.
\<close>

theorem setup_bins_no_configuration_check:
  "(num_bins g = 0 \<and> get_extrema spectra = Inr r \<longrightarrow>
       setup_bins g spectra = Raised ZeroDivisionError)
   \<and> (num_bins g \<noteq> 0 \<and> get_extrema spectra = Inr (Some a, a) \<longrightarrow>
       (\<exists>g'. setup_bins g spectra = Done g' \<and> bin_size g' = 0
          \<and> (\<forall>spec p ps. get_points spec = Inr (p # ps) \<longrightarrow>
                bin_spectrum g' spec = Inl ZeroDivisionError)))
   \<and> (num_bins g < 0 \<and> get_extrema spectra = Inr (Some a, b) \<and> a \<noteq> b \<longrightarrow>
       (\<exists>g'. setup_bins g spectra = Done g'
          \<and> (\<forall>spec p ps. get_points spec = Inr (p # ps) \<longrightarrow>
                bin_spectrum g' spec = Inl IndexError)))"
proof (intro conjI impI)
  assume "num_bins g = 0 \<and> get_extrema spectra = Inr r"
  then show "setup_bins g spectra = Raised ZeroDivisionError"
    by (simp add: setup_bins_num_bins_zero)
next
  assume h: "num_bins g \<noteq> 0 \<and> get_extrema spectra = Inr (Some a, a)"
  with setup_bins_Done [of g spectra a a] obtain g' where
    g': "setup_bins g spectra = Done g'" "bin_size g' = 0" by auto
  with bin_spectrum_bin_size_zero [of g']
  show "\<exists>g'. setup_bins g spectra = Done g' \<and> bin_size g' = 0
          \<and> (\<forall>spec p ps. get_points spec = Inr (p # ps) \<longrightarrow>
                bin_spectrum g' spec = Inl ZeroDivisionError)"
    by blast
next
  assume h: "num_bins g < 0 \<and> get_extrema spectra = Inr (Some a, b) \<and> a \<noteq> b"
  with setup_bins_Done [of g spectra a b] obtain g' where
    g': "setup_bins g spectra = Done g'" "num_bins g' < 0" "bin_size g' \<noteq> 0" by auto
  with bin_spectrum_num_bins_negative [of g']
  show "\<exists>g'. setup_bins g spectra = Done g'
          \<and> (\<forall>spec p ps. get_points spec = Inr (p # ps) \<longrightarrow>
                bin_spectrum g' spec = Inl IndexError)"
    by blast
qed


theorem setup_bins_no_configuration_check_witness:
  "setup_bins (initial_globals 1) [ex_flat_scan] = Done ex_flat_globals
   \<and> bin_size ex_flat_globals = 0
   \<and> bin_spectrum ex_flat_globals ex_flat_scan = Inl ZeroDivisionError"
proof -
  have e: "get_extrema [ex_flat_scan] = Inr (Some 1, 1)"
    by (simp add: get_extrema_def get_points_def extrema_point_def ex_flat_scan_def)
  have p: "get_points ex_flat_scan
      = Inr [\<lparr>p_rt = 1, p_mz = 100, p_intensity = 10, p_im = 1\<rparr>]"
    by (simp add: get_points_def ex_flat_scan_def)
  have n: "num_bins (initial_globals 1) \<noteq> 0" by (simp add: initial_globals_def)
  from setup_bins_no_configuration_check [of "initial_globals 1" "[ex_flat_scan]" _ 1 1]
    n e setup_bins_ex_flat_scan p
  show ?thesis by auto
qed

text \<open>
  The claim as stated fails: for one bin and a single sample, \<open>setup_bins\<close> accepts
  the degenerate range, and the run stops with \<open>ZeroDivisionError\<close> while the first
  scan is binned.
\<close>

theorem degenerate_range_counterexample:
  "setup_bins (initial_globals 1) [ex_flat_scan] = Done ex_flat_globals
   \<and> run_binning 1 [ex_flat_scan] = Raised ZeroDivisionError"
  using setup_bins_ex_flat_scan run_binning_ex_flat_scan by simp

section \<open>The aggregation of a bin\<close>



lemma write_run_0: "write_run xs k 0 v = xs"
  by (simp add: write_run_def)

lemma write_run_1_same: "write_run xs k (Suc 0) (p_intensity (xs ! k)) = xs"
  by (simp add: write_run_def)

lemma fold_upt_Suc: "fold f [0 ..< Suc n] s = f n (fold f [0 ..< n] s)"
  by simp

lemma agg_loop_no_repeats:
  assumes adj: "\<forall>j. Suc j < length ys \<longrightarrow> p_mz (ys ! j) \<noteq> p_mz (ys ! Suc j)"
  shows "n < length ys \<Longrightarrow>
     fold agg_step [0 ..< Suc n]
       \<lparr>pts = ys, mz_start = 0, num_mz = 0, curr_mz = p_mz (ys ! 0), running_intensity = 0\<rparr>
     = \<lparr>pts = ys, mz_start = n, num_mz = 1, curr_mz = p_mz (ys ! n),
        running_intensity = p_intensity (ys ! n)\<rparr>"
proof (induction n)
  case 0
  show ?case by (simp add: agg_step_def)
next
  case (Suc n)
  from Suc.prems adj have ne: "p_mz (ys ! Suc n) \<noteq> p_mz (ys ! n)" by auto
  from Suc have IH: "fold agg_step [0 ..< Suc n]
       \<lparr>pts = ys, mz_start = 0, num_mz = 0, curr_mz = p_mz (ys ! 0), running_intensity = 0\<rparr>
     = \<lparr>pts = ys, mz_start = n, num_mz = 1, curr_mz = p_mz (ys ! n),
        running_intensity = p_intensity (ys ! n)\<rparr>"
    by simp
  have "agg_step (Suc n) \<lparr>pts = ys, mz_start = n, num_mz = 1, curr_mz = p_mz (ys ! n),
        running_intensity = p_intensity (ys ! n)\<rparr>
      = \<lparr>pts = ys, mz_start = Suc n, num_mz = 1, curr_mz = p_mz (ys ! Suc n),
        running_intensity = p_intensity (ys ! Suc n)\<rparr>"
    by (simp add: agg_step_def ne write_run_1_same)
  then show ?case
    by (simp only: fold_upt_Suc [of _ "Suc n"] IH)
qed

lemma aggregate_no_repeats:
  assumes "ys \<noteq> []" "sorted (map p_mz ys)" "distinct (map p_mz ys)"
  shows "aggregate ys = ys"
proof -
  have s: "sort_key p_mz ys = ys" using assms(2) by (rule sort_key_id_if_sorted)
  have adj: "\<forall>j. Suc j < length ys \<longrightarrow> p_mz (ys ! j) \<noteq> p_mz (ys ! Suc j)"
    using assms(3) by (auto simp: distinct_conv_nth)
  from assms(1) obtain n where n: "length ys = Suc n" by (cases ys) auto
  then have "n < length ys" by simp
  from agg_loop_no_repeats [OF adj this] show ?thesis
    unfolding aggregate_def s n Let_def by (simp only: write_run_1_same agg_state.simps One_nat_def) simp
qed

lemma aggregate_bin_no_repeats:
  assumes "distinct (map p_mz xs)"
  shows "aggregate_bin xs = sort_key p_mz xs"
proof (cases "xs = []")
  case True
  then show ?thesis by (simp add: aggregate_bin_def)
next
  case False
  then have ne: "sort_key p_mz xs \<noteq> []" by (metis length_0_conv length_sort)
  have d: "distinct (map p_mz (sort_key p_mz xs))"
    using assms by (simp add: distinct_map)
  have "aggregate xs = aggregate (sort_key p_mz xs)"
    by (simp add: aggregate_def sort_key_id_if_sorted [of p_mz "sort_key p_mz xs"])
  also have "\<dots> = sort_key p_mz xs"
    using ne d by (intro aggregate_no_repeats) simp_all
  finally show ?thesis using False by (simp add: aggregate_bin_def)
qed


subsection \<open>The loop computes the sums of the groups\<close>
















text \<open>
  Claim C8. On a point list in which no two entries share an exactly equal
  mass-to-charge, aggregating a second time gives exactly the list that aggregating
  once gives.
\<close>

theorem aggregate_bin_idempotent:
  "distinct (map p_mz xs) \<Longrightarrow> aggregate_bin (aggregate_bin xs) = aggregate_bin xs"
proof -
  assume d: "distinct (map p_mz xs)"
  then have d': "distinct (map p_mz (sort_key p_mz xs))" by (simp add: distinct_map)
  show ?thesis
    by (simp add: aggregate_bin_no_repeats [OF d] aggregate_bin_no_repeats [OF d']
        sort_key_id_if_sorted)
qed

theorem aggregate_bin_idempotent_witness:
  "distinct (map p_mz (rev ex_points))
   \<and> aggregate_bin (rev ex_points) = ex_points
   \<and> aggregate_bin (aggregate_bin (rev ex_points)) = ex_points"
proof -
  have d: "distinct (map p_mz (rev ex_points))" by (simp add: ex_points_def)
  have a: "aggregate_bin (rev ex_points) = ex_points"
    by (simp add: aggregate_bin_no_repeats [OF d]) (simp add: ex_points_def)
  from aggregate_bin_idempotent [OF d] d a show ?thesis by simp
qed

section \<open>The spectra of a bin\<close>

lemma assign_point_same_context:
  "same_context g g' \<Longrightarrow> assign_point g' tbs p = assign_point g tbs p"
  by (simp add: same_context_def assign_point_def primary_bin_idx_def secondary_bin_idx_def
      Let_def cong: sum.case_cong)

lemma assign_points_same_context:
  "same_context g g' \<Longrightarrow> assign_points g' tbs ps = assign_points g tbs ps"
  by (induction ps arbitrary: tbs)
    (auto simp: assign_point_same_context split: sum.splits)

lemma scan_bins_same_context:
  "same_context g g' \<Longrightarrow> scan_bins g' spec = scan_bins g spec"
proof -
  assume c: "same_context g g'"
  then have "num_bins g' = num_bins g" by (simp add: same_context_def)
  then have "assign_bins g' points = assign_bins g points" for points
    by (simp add: assign_bins_def assign_points_same_context [OF c])
  then show ?thesis by (simp add: scan_bins_def cong: sum.case_cong)
qed

lemma extend_at_Inr:
  assumes "extend_at xss i xs = Inr yss"
  shows "i < length xss" and "length yss = length xss"
    and "yss ! i = xss ! i @ xs" and "k \<noteq> i \<Longrightarrow> yss ! k = xss ! k"
  using assms by (auto simp: extend_at_def split: if_splits)

lemma pass_bin_Inr:
  assumes "pass_bin spec tb i acc = Inr acc'"
  shows "length (fst acc') = length (fst acc)" and "length (snd acc') = length (snd acc)"
    and "k \<noteq> i \<Longrightarrow> snd acc' ! k = snd acc ! k"
    and "snd acc' ! i = snd acc ! i @
           (if tb ! i = [] then [] else [build_spectrum spec (aggregate (tb ! i))])"
  using assms
  by (auto simp: pass_bin_def Let_def split: if_splits sum.splits dest: extend_at_Inr)

lemma pass_loop_Inr:
  assumes "pass_loop spec tb is acc = Inr acc'" and "distinct is"
  shows "length (fst acc') = length (fst acc) \<and> length (snd acc') = length (snd acc)
    \<and> (\<forall>k. snd acc' ! k = snd acc ! k @
           (if k \<in> set is \<and> tb ! k \<noteq> [] then [build_spectrum spec (aggregate (tb ! k))]
            else []))"
  using assms
proof (induction "is" arbitrary: acc)
  case Nil
  then show ?case by simp
next
  case (Cons i "is")
  from Cons.prems(1) obtain a where a: "pass_bin spec tb i acc = Inr a"
    and r: "pass_loop spec tb is a = Inr acc'"
    by (auto split: sum.splits)
  from Cons.prems(2) have d: "distinct is" and ni: "i \<notin> set is" by auto
  note IH = Cons.IH [OF r d]
  note P = pass_bin_Inr [OF a]
  show ?case
  proof (intro conjI allI)
    show "length (fst acc') = length (fst acc)" using IH P(1) by simp
    show "length (snd acc') = length (snd acc)" using IH P(2) by simp
    fix k
    show "snd acc' ! k = snd acc ! k @
           (if k \<in> set (i # is) \<and> tb ! k \<noteq> [] then [build_spectrum spec (aggregate (tb ! k))]
            else [])"
    proof (cases "k = i")
      case True
      with IH P(4) ni show ?thesis by simp
    next
      case False
      with IH P(3) [OF False] show ?thesis by simp
    qed
  qed
qed

lemma bin_spectrum_Inr:
  assumes "bin_spectrum g spec = Inr g'"
  shows "same_context g g'"
    and "length (exps g') = length (exps g)" and "length (exps2 g') = length (exps2 g)"
    and "i < nat (num_bins g) \<Longrightarrow>
           exps g' ! i = exps g ! i @ synthesized spec (fst (scan_bins g spec) ! i)"
    and "i < nat (num_bins g + 1) \<Longrightarrow>
           exps2 g' ! i = exps2 g ! i @ synthesized spec (snd (scan_bins g spec) ! i)"
proof -
  from assms obtain points tb tb2 bs es bs2 es2 where
    gp: "get_points spec = Inr points" and ab: "assign_bins g points = Inr (tb, tb2)"
    and p1: "pass_loop spec tb [0 ..< nat (num_bins g)] (bins g, exps g) = Inr (bs, es)"
    and p2: "pass_loop spec tb2 [0 ..< nat (num_bins g + 1)] (bins2 g, exps2 g) = Inr (bs2, es2)"
    and g': "g' = g\<lparr>bins := bs, exps := es, bins2 := bs2, exps2 := es2\<rparr>"
    by (auto simp: bin_spectrum_def split: sum.splits prod.splits)
  have sb: "scan_bins g spec = (tb, tb2)" by (simp add: scan_bins_def gp ab)
  note L1 = pass_loop_Inr [OF p1, simplified]
  note L2 = pass_loop_Inr [OF p2, simplified]
  show "same_context g g'" by (simp add: g' same_context_def)
  show "length (exps g') = length (exps g)" using L1 by (simp add: g')
  show "length (exps2 g') = length (exps2 g)" using L2 by (simp add: g')
  show "exps g' ! i = exps g ! i @ synthesized spec (fst (scan_bins g spec) ! i)"
    if "i < nat (num_bins g)"
    using L1 that by (simp add: g' synthesized_def sb)
  show "exps2 g' ! i = exps2 g ! i @ synthesized spec (snd (scan_bins g spec) ! i)"
    if "i < nat (num_bins g + 1)"
    using L2 that by (simp add: g' synthesized_def sb)
qed

lemma same_context_refl: "same_context g g"
  by (simp add: same_context_def)

lemma same_context_trans: "same_context g h \<Longrightarrow> same_context h k \<Longrightarrow> same_context g k"
  by (simp add: same_context_def)

lemma new_spectra_Cons:
  "new_spectra (s # spectra) f =
     (if MSLevel s = 1 then synthesized s (f s) else []) @ new_spectra spectra f"
  by (simp add: new_spectra_def)

lemma bin_all_Inr:
  assumes "bin_all g spectra = Inr g'"
  shows "same_context g g'
    \<and> (\<forall>i < nat (num_bins g).
          exps g' ! i = exps g ! i @ new_spectra spectra (\<lambda>s. fst (scan_bins g s) ! i))
    \<and> (\<forall>i < nat (num_bins g + 1).
          exps2 g' ! i = exps2 g ! i @ new_spectra spectra (\<lambda>s. snd (scan_bins g s) ! i))"
  using assms
proof (induction spectra arbitrary: g)
  case Nil
  then show ?case by (simp add: same_context_refl new_spectra_def)
next
  case (Cons spec spectra)
  show ?case
  proof (cases "MSLevel spec = 1")
    case False
    with Cons.prems have "bin_all g spectra = Inr g'" by simp
    from Cons.IH [OF this] False show ?thesis
      by (simp add: new_spectra_Cons)
  next
    case True
    with Cons.prems obtain h where h: "bin_spectrum g spec = Inr h"
      and r: "bin_all h spectra = Inr g'"
      by (auto split: sum.splits)
    note B = bin_spectrum_Inr [OF h]
    note IH = Cons.IH [OF r]
    from B(1) have nb: "num_bins h = num_bins g" by (simp add: same_context_def)
    have sb: "scan_bins h = scan_bins g"
      using scan_bins_same_context [OF B(1)] by (simp add: fun_eq_iff)
    show ?thesis
    proof (intro conjI allI impI)
      show "same_context g g'" using B(1) IH by (blast intro: same_context_trans)
    next
      fix i assume i: "i < nat (num_bins g)"
      with IH nb have "exps g' ! i = exps h ! i @ new_spectra spectra (\<lambda>s. fst (scan_bins h s) ! i)"
        by simp
      with B(4) [OF i] True show "exps g' ! i
          = exps g ! i @ new_spectra (spec # spectra) (\<lambda>s. fst (scan_bins g s) ! i)"
        by (simp add: sb new_spectra_Cons)
    next
      fix i assume i: "i < nat (num_bins g + 1)"
      with IH nb have "exps2 g' ! i = exps2 h ! i @ new_spectra spectra (\<lambda>s. snd (scan_bins h s) ! i)"
        by simp
      with B(5) [OF i] True show "exps2 g' ! i
          = exps2 g ! i @ new_spectra (spec # spectra) (\<lambda>s. snd (scan_bins g s) ! i)"
        by (simp add: sb new_spectra_Cons)
    qed
  qed
qed

lemma setup_bins_initial:
  assumes "setup_bins (initial_globals n) spectra = Done g"
  shows "num_bins g = n" and "exps g = replicate (nat n) []"
    and "exps2 g = replicate (nat (n + 1)) []"
  using assms
  by (auto simp: setup_bins_def initial_globals_def Let_def
      split: sum.splits prod.splits if_splits option.splits)

lemma upt_0_4: "[0 ..< 4] = [0, 1, 2, 3]"
  by (simp add: upt_rec)

lemma upt_0_5: "[0 ..< 5] = [0, 1, 2, 3, 4]"
  by (simp add: upt_rec)

lemma aggregate_single: "aggregate [p] = [p]"
  by (simp add: aggregate_def agg_step_def write_run_def Let_def)

lemma setup_bins_ex_scan_4: "setup_bins (initial_globals 4) [ex_scan] = Done ex_setup_globals"
  by (simp add: setup_bins_def get_extrema_ex_scan initial_globals_def ex_setup_globals_def
      eval_nat_numeral)

lemma assign_bins_ex_scan_4:
  "assign_bins ex_setup_globals ex_points =
     Inr ([[ex_points ! 0], [], [], [ex_points ! 1]],
          [[ex_points ! 0], [], [], [], [ex_points ! 1]])"
  by (simp add: assign_bins_def assign_point_def primary_bin_idx_def secondary_bin_idx_def
      append_at_def py_index_def py_int_def ex_points_def ex_setup_globals_def
      eval_nat_numeral)

lemma pass_loop_ex_scan_4:
  "pass_loop ex_scan [[ex_points ! 0], [], [], [ex_points ! 1]] [0, 1, 2, 3]
     ([[], [], [], []], [[], [], [], []])
   = Inr ([[ex_points ! 0], [], [], [ex_points ! 1]],
          [[build_spectrum ex_scan [ex_points ! 0]], [], [],
           [build_spectrum ex_scan [ex_points ! 1]]])"
  by (simp add: pass_bin_def extend_at_def aggregate_single Let_def eval_nat_numeral)

lemma pass_loop2_ex_scan_4:
  "pass_loop ex_scan [[ex_points ! 0], [], [], [], [ex_points ! 1]] [0, 1, 2, 3, 4]
     ([[], [], [], [], []], [[], [], [], [], []])
   = Inr ([[ex_points ! 0], [], [], [], [ex_points ! 1]],
          [[build_spectrum ex_scan [ex_points ! 0]], [], [], [],
           [build_spectrum ex_scan [ex_points ! 1]]])"
  by (simp add: pass_bin_def extend_at_def aggregate_single Let_def eval_nat_numeral)

lemma bin_spectrum_ex_scan_4: "bin_spectrum ex_setup_globals ex_scan = Inr ex_run_globals"
proof -
  have n: "[0 ..< nat (num_bins ex_setup_globals)] = [0, 1, 2, 3]"
    by (simp add: ex_setup_globals_def upt_0_4)
  have n2: "[0 ..< nat (num_bins ex_setup_globals + 1)] = [0, 1, 2, 3, 4]"
    by (simp add: ex_setup_globals_def upt_0_5)
  have b: "(bins ex_setup_globals, exps ex_setup_globals)
      = ([[], [], [], []], [[], [], [], []])"
    by (simp add: ex_setup_globals_def)
  have b2: "(bins2 ex_setup_globals, exps2 ex_setup_globals)
      = ([[], [], [], [], []], [[], [], [], [], []])"
    by (simp add: ex_setup_globals_def)
  show ?thesis
    by (simp only: bin_spectrum_def get_points_ex_scan assign_bins_ex_scan_4 n n2 b b2
        pass_loop_ex_scan_4 pass_loop2_ex_scan_4 sum.case prod.case)
      (simp add: ex_setup_globals_def ex_run_globals_def)
qed

lemma run_binning_ex_scan_4: "run_binning 4 [ex_scan] = Done ex_run_globals"
proof -
  have m: "MSLevel ex_scan = 1" by (simp add: ex_scan_def)
  show ?thesis
    by (simp add: run_binning_def setup_bins_ex_scan_4 m bin_spectrum_ex_scan_4)
qed

subsection \<open>A run with valid bins completes\<close>

lemma pass_bin_succeeds:
  assumes "i < length tb" "i < length (fst acc)" "i < length (snd acc)"
  shows "\<exists>acc'. pass_bin spec tb i acc = Inr acc'"
  using assms by (simp add: pass_bin_def extend_at_def Let_def)

lemma pass_loop_succeeds:
  assumes "\<forall>i\<in>set is. i < length tb \<and> i < length (fst acc) \<and> i < length (snd acc)"
  shows "\<exists>acc'. pass_loop spec tb is acc = Inr acc'"
  using assms
proof (induction "is" arbitrary: acc)
  case Nil
  then show ?case by simp
next
  case (Cons i "is")
  from pass_bin_succeeds [of i tb acc spec] Cons.prems obtain a where
    a: "pass_bin spec tb i acc = Inr a" by auto
  from pass_bin_Inr(1,2) [OF a] Cons.prems
  have "\<exists>acc'. pass_loop spec tb is a = Inr acc'" by (intro Cons.IH) auto
  with a show ?case by simp
qed

lemma bin_spectrum_succeeds:
  assumes r: "bins_ready g" and gp: "get_points spec = Inr ps"
    and lo: "\<forall>p\<in>set ps. first_im g \<le> p_im p"
  shows "\<exists>g'. bin_spectrum g spec = Inr g' \<and> bins_ready g' \<and> same_context g g'"
proof -
  from r have nb: "0 < num_bins g" and bs: "0 < bin_size g"
    and l: "length (bins g) = nat (num_bins g)" "length (exps g) = nat (num_bins g)"
      "length (bins2 g) = nat (num_bins g + 1)" "length (exps2 g) = nat (num_bins g + 1)"
    by (simp_all add: bins_ready_def)
  from assign_bins_succeeds [OF nb bs lo] obtain tb tb2 where
    ab: "assign_bins g ps = Inr (tb, tb2)" by blast
  note A = assign_bins_Inr(5,6) [OF ab]
  have "\<exists>acc'. pass_loop spec tb [0 ..< nat (num_bins g)] (bins g, exps g) = Inr acc'"
    by (rule pass_loop_succeeds) (simp add: A l)
  then obtain b1 e1 where
    p1: "pass_loop spec tb [0 ..< nat (num_bins g)] (bins g, exps g) = Inr (b1, e1)"
    by auto
  have "\<exists>acc'. pass_loop spec tb2 [0 ..< nat (num_bins g + 1)] (bins2 g, exps2 g) = Inr acc'"
    by (rule pass_loop_succeeds) (simp add: A l)
  then obtain b2 e2 where
    p2: "pass_loop spec tb2 [0 ..< nat (num_bins g + 1)] (bins2 g, exps2 g) = Inr (b2, e2)"
    by auto
  from pass_loop_Inr [OF p1] pass_loop_Inr [OF p2]
  have len: "length b1 = length (bins g)" "length e1 = length (exps g)"
    "length b2 = length (bins2 g)" "length e2 = length (exps2 g)"
    by simp_all
  have "bin_spectrum g spec = Inr (g\<lparr>bins := b1, exps := e1, bins2 := b2, exps2 := e2\<rparr>)"
    by (simp add: bin_spectrum_def gp ab p1 p2)
  moreover have "bins_ready (g\<lparr>bins := b1, exps := e1, bins2 := b2, exps2 := e2\<rparr>)"
    using r len by (simp add: bins_ready_def)
  moreover have "same_context g (g\<lparr>bins := b1, exps := e1, bins2 := b2, exps2 := e2\<rparr>)"
    by (simp add: same_context_def)
  ultimately show ?thesis by blast
qed

lemma bin_all_succeeds:
  assumes "bins_ready g"
    and "\<forall>spec\<in>set spectra. \<exists>ps. get_points spec = Inr ps \<and> (\<forall>p\<in>set ps. first_im g \<le> p_im p)"
  shows "\<exists>g'. bin_all g spectra = Inr g'"
  using assms
proof (induction spectra arbitrary: g)
  case Nil
  then show ?case by simp
next
  case (Cons spec spectra)
  show ?case
  proof (cases "MSLevel spec = 1")
    case False
    with Cons.IH [OF Cons.prems(1)] Cons.prems(2) show ?thesis by simp
  next
    case True
    from Cons.prems(2) obtain ps where ps: "get_points spec = Inr ps"
      "\<forall>p\<in>set ps. first_im g \<le> p_im p" by auto
    from bin_spectrum_succeeds [OF Cons.prems(1) ps] obtain h where
      h: "bin_spectrum g spec = Inr h" "bins_ready h" "same_context g h" by blast
    from h(3) have "first_im h = first_im g" by (simp add: same_context_def)
    with Cons.prems(2) have "\<exists>g'. bin_all h spectra = Inr g'"
      by (intro Cons.IH [OF h(2)]) simp
    with True h(1) show ?thesis by simp
  qed
qed

lemma scan_ims_subset:
  "spec \<in> set spectra \<Longrightarrow> set (scan_ims spec) \<subseteq> set (all_ims spectra)"
  by (auto simp: all_ims_def)

lemma get_extrema_Some:
  assumes f: "\<forall>s\<in>set spectra. FloatDataArrays s \<noteq> []"
    and e: "get_extrema spectra = Inr (Some a, b)"
  shows "all_ims spectra \<noteq> []" and "a = Min (set (all_ims spectra))"
proof -
  from extrema_loop_all [OF f, of "(None, - 1)"] obtain qs where
    qs: "map p_im qs = all_ims spectra"
      "extrema_loop (None, - 1) spectra = Inr (foldl extrema_point (None, - 1) qs)"
    by auto
  show ne: "all_ims spectra \<noteq> []"
  proof
    assume "all_ims spectra = []"
    with qs(1) have "qs = []" by simp
    with qs(2) e show False by (simp add: get_extrema_def)
  qed
  from get_extrema_all [OF f ne] e show "a = Min (set (all_ims spectra))" by simp
qed

lemma run_binning_succeeds:
  assumes n: "0 < n" and f: "\<forall>s\<in>set spectra. FloatDataArrays s \<noteq> []"
    and e: "get_extrema spectra = Inr (Some a, b)" and ab: "a < b"
  shows "\<exists>g. run_binning n spectra = Done g"
proof -
  define g0 where "g0 = (initial_globals n)\<lparr>first_im := a, last_im := b, delta_im := b - a,
      bin_size := (b - a) / real_of_int n,
      bins := replicate (nat n) [], exps := replicate (nat n) [],
      offset_im := (b - a) / real_of_int n / 2 + a,
      bins2 := replicate (nat (n + 1)) [], exps2 := replicate (nat (n + 1)) []\<rparr>"
  from n have s: "setup_bins (initial_globals n) spectra = Done g0"
    by (simp add: setup_bins_def e initial_globals_def g0_def Let_def)
  from n ab have r: "bins_ready g0"
    by (simp add: bins_ready_def g0_def initial_globals_def)
  note E = get_extrema_Some [OF f e]
  have "\<exists>ps. get_points spec = Inr ps \<and> (\<forall>p\<in>set ps. first_im g0 \<le> p_im p)"
    if sp: "spec \<in> set spectra" for spec
  proof -
    from f sp get_points_succeeds [of spec] obtain ps where ps: "get_points spec = Inr ps"
      by auto
    have "first_im g0 \<le> p_im p" if "p \<in> set ps" for p
    proof -
      from that ps have "p_im p \<in> set (scan_ims spec)" by (simp add: scan_ims_def)
      with scan_ims_subset [OF sp] have "p_im p \<in> set (all_ims spectra)" by blast
      then have "Min (set (all_ims spectra)) \<le> p_im p" by simp
      with E(2) show ?thesis by (simp add: g0_def)
    qed
    with ps show ?thesis by blast
  qed
  with bin_all_succeeds [OF r, of spectra] obtain g where "bin_all g0 spectra = Inr g"
    by blast
  with s show ?thesis by (simp add: run_binning_def)
qed

text \<open>
  Claim C9, as amended. A bin that receives no point of a scan is skipped for that scan
  (\<open>continue\<close>). After a run that completes, the spectrum collection of every
  primary bin, and of every secondary bin, holds one spectrum for each scan of MS level
  1 that put at least one point into that bin, and none for the other scans, in the
  order in which the scans were processed; the spectrum is built from the aggregated
  points of that bin and scan (m/z, summed intensity, and the ion mobilities). A run
  completes when \<open>num_bins\<close> is positive, every spectrum has its ion-mobility array
  and the range of the ion mobilities is not degenerate.
\<close>

theorem bin_spectra_one_per_nonempty_scan:
  "(run_binning n spectra = Done g \<longrightarrow>
      (\<forall>i < nat n. exps g ! i = new_spectra spectra (\<lambda>s. fst (scan_bins g s) ! i))
    \<and> (\<forall>i < nat (n + 1). exps2 g ! i = new_spectra spectra (\<lambda>s. snd (scan_bins g s) ! i)))
   \<and> (0 < n \<and> (\<forall>s\<in>set spectra. FloatDataArrays s \<noteq> [])
       \<and> get_extrema spectra = Inr (Some a, b) \<and> a < b \<longrightarrow>
       (\<exists>g'. run_binning n spectra = Done g'))"
proof (intro conjI impI)
  assume run: "run_binning n spectra = Done g"
  from run obtain g0 where s: "setup_bins (initial_globals n) spectra = Done g0"
    and b: "bin_all g0 spectra = Inr g"
    by (auto simp: run_binning_def split: outcome.splits sum.splits)
  note S = setup_bins_initial [OF s]
  note B = bin_all_Inr [OF b]
  from B have sb: "scan_bins g = scan_bins g0"
    using scan_bins_same_context [of g0 g] by (simp add: fun_eq_iff)
  from B S show "\<forall>i < nat n. exps g ! i = new_spectra spectra (\<lambda>s. fst (scan_bins g s) ! i)"
    by (simp add: sb)
  from B S show "\<forall>i < nat (n + 1).
      exps2 g ! i = new_spectra spectra (\<lambda>s. snd (scan_bins g s) ! i)"
    by (simp add: sb)
next
  assume "0 < n \<and> (\<forall>s\<in>set spectra. FloatDataArrays s \<noteq> [])
       \<and> get_extrema spectra = Inr (Some a, b) \<and> a < b"
  then show "\<exists>g'. run_binning n spectra = Done g'"
    using run_binning_succeeds [of n spectra a b] by blast
qed

theorem bin_spectra_one_per_nonempty_scan_witness:
  "run_binning 4 [ex_scan] = Done ex_run_globals
   \<and> new_spectra [ex_scan] (\<lambda>s. fst (scan_bins ex_run_globals s) ! 0)
       = [build_spectrum ex_scan [ex_points ! 0]]
   \<and> new_spectra [ex_scan] (\<lambda>s. fst (scan_bins ex_run_globals s) ! 1) = []"
proof -
  from bin_spectra_one_per_nonempty_scan [of 4 "[ex_scan]" ex_run_globals]
    run_binning_ex_scan_4
  have T: "\<forall>i < nat 4. exps ex_run_globals ! i
      = new_spectra [ex_scan] (\<lambda>s. fst (scan_bins ex_run_globals s) ! i)"
    by blast
  from T have "exps ex_run_globals ! 0
      = new_spectra [ex_scan] (\<lambda>s. fst (scan_bins ex_run_globals s) ! 0)"
    by simp
  moreover have "exps ex_run_globals ! 0 = [build_spectrum ex_scan [ex_points ! 0]]"
    by (simp add: ex_run_globals_def)
  moreover from T have "exps ex_run_globals ! 1
      = new_spectra [ex_scan] (\<lambda>s. fst (scan_bins ex_run_globals s) ! 1)"
    by simp
  moreover have "exps ex_run_globals ! 1 = []"
    by (simp add: ex_run_globals_def)
  ultimately show ?thesis using run_binning_ex_scan_4 by simp
qed

text \<open>
  The claim as stated fails: one scan of MS level 1 is processed, and the second of
  four primary bins, which receives none of its points, has no spectrum.
\<close>

theorem empty_bin_counterexample:
  "run_binning 4 [ex_scan] = Done ex_run_globals \<and> MSLevel ex_scan = 1
   \<and> length (exps ex_run_globals ! 1) = 0"
  using run_binning_ex_scan_4 by (simp add: ex_run_globals_def ex_scan_def)

section \<open>The walks of the peak picker\<close>







section \<open>What a walk takes\<close>

lemma left_step_result:
  "left_step P spec picked i j s = Break s \<or>
   (\<not> picked ! j \<and>
    total_intensity (loop_state (left_step P spec picked i j s))
      = total_intensity s + getIntensity (spec ! j) \<and>
    left_picked (loop_state (left_step P spec picked i j s)) = left_picked s + 1 \<and>
    low_bound (loop_state (left_step P spec picked i j s)) = low_bound s - 1 \<and>
    right_picked (loop_state (left_step P spec picked i j s)) = right_picked s \<and>
    high_bound (loop_state (left_step P spec picked i j s)) = high_bound s)"
  by (simp add: left_step_def loop_state_def Let_def)

lemma right_step_result:
  "right_step P spec picked i j s = Break s \<or>
   (\<not> picked ! j \<and>
    total_intensity (loop_state (right_step P spec picked i j s))
      = total_intensity s + getIntensity (spec ! j) \<and>
    right_picked (loop_state (right_step P spec picked i j s)) = right_picked s + 1 \<and>
    high_bound (loop_state (right_step P spec picked i j s)) = high_bound s + 1 \<and>
    left_picked (loop_state (right_step P spec picked i j s)) = left_picked s \<and>
    low_bound (loop_state (right_step P spec picked i j s)) = low_bound s)"
  by (simp add: right_step_def loop_state_def Let_def)

lemma walk_left_span:
  "low_bound s = m \<Longrightarrow>
   left_span spec picked m s (walk (left_step P spec picked i) (rev [0 ..< m]) s)"
proof (induction m arbitrary: s)
  case 0
  then show ?case by (simp add: left_span_def)
next
  case (Suc m)
  let ?r = "left_step P spec picked i m s"
  have l: "rev [0 ..< Suc m] = m # rev [0 ..< m]" by simp
  from left_step_result [of P spec picked i m s]
  consider (stop) "?r = Break s"
    | (go) "\<not> picked ! m"
        "total_intensity (loop_state ?r) = total_intensity s + getIntensity (spec ! m)"
        "left_picked (loop_state ?r) = left_picked s + 1"
        "low_bound (loop_state ?r) = low_bound s - 1"
        "right_picked (loop_state ?r) = right_picked s"
        "high_bound (loop_state ?r) = high_bound s"
    by blast
  then show ?case
  proof cases
    case stop
    with Suc.prems show ?thesis by (simp only: l walk.simps) (auto simp: left_span_def)
  next
    case go
    from go(4) Suc.prems have lb: "low_bound (loop_state ?r) = m" by simp
    show ?thesis
    proof (cases ?r)
      case (Break s1)
      with go lb Suc.prems show ?thesis
        by (simp only: l walk.simps) (auto simp: left_span_def loop_state_def less_Suc_eq)
    next
      case (Continue s1)
      with lb have "low_bound s1 = m" by (simp add: loop_state_def)
      from Suc.IH [OF this] have
        IH: "left_span spec picked m s1 (walk (left_step P spec picked i) (rev [0 ..< m]) s1)" .
      have w: "walk (left_step P spec picked i) (rev [0 ..< Suc m]) s
          = walk (left_step P spec picked i) (rev [0 ..< m]) s1"
        by (simp only: l walk.simps Continue loop.case)
      from go Continue have s1: "total_intensity s1 = total_intensity s + getIntensity (spec ! m)"
        "left_picked s1 = left_picked s + 1" "right_picked s1 = right_picked s"
        "high_bound s1 = high_bound s"
        by (simp_all add: loop_state_def)
      from IH go(1) show ?thesis
        unfolding w left_span_def s1
        by (auto simp: less_Suc_eq sum.atLeast_Suc_lessThan sum.atLeastLessThan_Suc)
    qed
  qed
qed


lemma walk_right_span:
  "high_bound s + 1 = a \<Longrightarrow>
   right_span spec picked n s (walk (right_step P spec picked i) [a ..< n] s)"
proof (induction "n - a" arbitrary: a s)
  case 0
  then show ?case by (auto simp: right_span_def)
next
  case (Suc d)
  let ?r = "right_step P spec picked i a s"
  from Suc.hyps(2) have an: "a < n" by simp
  then have l: "[a ..< n] = a # [Suc a ..< n]" by (rule upt_conv_Cons)
  from right_step_result [of P spec picked i a s]
  consider (stop) "?r = Break s"
    | (go) "\<not> picked ! a"
        "total_intensity (loop_state ?r) = total_intensity s + getIntensity (spec ! a)"
        "right_picked (loop_state ?r) = right_picked s + 1"
        "high_bound (loop_state ?r) = high_bound s + 1"
        "left_picked (loop_state ?r) = left_picked s"
        "low_bound (loop_state ?r) = low_bound s"
    by blast
  then show ?case
  proof cases
    case stop
    then show ?thesis by (simp only: l walk.simps) (auto simp: right_span_def)
  next
    case go
    from go(4) Suc.prems have hb: "high_bound (loop_state ?r) = a" by simp
    show ?thesis
    proof (cases ?r)
      case (Break s1)
      have ka: "k = a" if "high_bound s < k" "k \<le> a" for k
        using that Suc.prems by simp
      from Break go hb have s1: "total_intensity s1 = total_intensity s + getIntensity (spec ! a)"
        "right_picked s1 = right_picked s + 1" "left_picked s1 = left_picked s"
        "low_bound s1 = low_bound s" "high_bound s1 = a"
        by (simp_all add: loop_state_def)
      have w: "walk (right_step P spec picked i) [a ..< n] s = s1"
        by (simp only: l walk.simps Break loop.case)
      from Suc.prems an go(1) show ?thesis
        unfolding w right_span_def s1 by (auto dest: ka)
    next
      case (Continue s1)
      with hb have h1: "high_bound s1 + 1 = Suc a" by (simp add: loop_state_def)
      from Suc.hyps(2) have "d = n - Suc a" by simp
      from Suc.hyps(1) [OF this h1] have
        IH: "right_span spec picked n s1 (walk (right_step P spec picked i) [Suc a ..< n] s1)" .
      have w: "walk (right_step P spec picked i) [a ..< n] s
          = walk (right_step P spec picked i) [Suc a ..< n] s1"
        by (simp only: l walk.simps Continue loop.case)
      from go Continue hb have s1: "total_intensity s1 = total_intensity s + getIntensity (spec ! a)"
        "right_picked s1 = right_picked s + 1" "left_picked s1 = left_picked s"
        "low_bound s1 = low_bound s" "high_bound s1 = a"
        by (simp_all add: loop_state_def)
      define t where "t = walk (right_step P spec picked i) [Suc a ..< n] s1"
      from IH an have t: "a \<le> high_bound t" "high_bound t < n"
        "total_intensity t = total_intensity s + getIntensity (spec ! a)
           + (\<Sum>k = Suc a ..< high_bound t + 1. getIntensity (spec ! k))"
        "right_picked t = right_picked s + 1 + (high_bound t - a)"
        "\<forall>k. a < k \<and> k \<le> high_bound t \<longrightarrow> \<not> picked ! k"
        "left_picked t = left_picked s" "low_bound t = low_bound s"
        unfolding right_span_def s1 t_def by simp_all
      from Suc.prems have hs: "high_bound s + 1 = a" .
      have sm: "(\<Sum>k = a ..< high_bound t + 1. getIntensity (spec ! k))
          = getIntensity (spec ! a) + (\<Sum>k = Suc a ..< high_bound t + 1. getIntensity (spec ! k))"
        using t(1) by (intro sum.atLeast_Suc_lessThan) simp
      have un: "\<not> picked ! k" if "high_bound s < k" "k \<le> high_bound t" for k
      proof (cases "k = a")
        case True
        with go(1) show ?thesis by simp
      next
        case False
        with that hs have "a < k" by simp
        with t(5) that show ?thesis by simp
      qed
      show ?thesis
        unfolding w right_span_def t_def [symmetric]
      proof (intro conjI allI impI)
        show "high_bound s \<le> high_bound t" using t(1) hs by simp
        show "high_bound t < n" using t(2) .
        show "total_intensity t = total_intensity s
            + (\<Sum>k = high_bound s + 1 ..< high_bound t + 1. getIntensity (spec ! k))"
          using t(3) sm hs by simp
        show "right_picked t = right_picked s + (high_bound t - high_bound s)"
          using t(1,4) hs by simp
        show "left_picked t = left_picked s" using t(6) .
        show "low_bound t = low_bound s" using t(7) .
        fix k assume "high_bound s < k \<and> k \<le> high_bound t"
        then show "\<not> picked ! k" using un by simp
      qed
    qed
  qed
qed

section \<open>What a walk does to the concession\<close>



lemma increases_left_empty [simp]: "increases_left spec m m = 0"
  by (simp add: increases_left_def)





lemma increases_right_empty [simp]: "increases_right spec a a = 0"
  by (simp add: increases_right_def)









section \<open>The span of an accepted seed\<close>

lemma expand_seed_Some:
  assumes "expand_seed P spec picked i = Some s" and "i < length spec"
  shows "low_bound s \<le> i" and "i \<le> high_bound s" and "high_bound s < length spec"
    and "total_intensity s = (\<Sum>k = low_bound s .. high_bound s. getIntensity (spec ! k))"
    and "\<forall>k. low_bound s \<le> k \<and> k \<le> high_bound s \<and> k \<noteq> i \<longrightarrow> \<not> picked ! k"
proof -
  define s1 where "s1 = walk_left P spec picked i"
  define s1' where "s1' = s1\<lparr>sflag := False, threshold := min_req P\<rparr>"
  from assms(1) have s: "s = walk_right P spec picked i s1"
    by (auto simp: expand_seed_def Let_def s1_def split: if_splits)
  have "left_span spec picked i (seed_init P spec i) s1"
    unfolding s1_def walk_left_def by (rule walk_left_span) (simp add: seed_init_def)
  then have L: "low_bound s1 \<le> i"
    "total_intensity s1 = getIntensity (spec ! i)
       + (\<Sum>k = low_bound s1 ..< i. getIntensity (spec ! k))"
    "\<forall>k. low_bound s1 \<le> k \<and> k < i \<longrightarrow> \<not> picked ! k"
    "high_bound s1 = i"
    by (simp_all add: left_span_def seed_init_def)
  have hb: "high_bound s1' + 1 = i + 1" by (simp add: s1'_def L(4))
  have "right_span spec picked (length spec) s1' s"
    unfolding s walk_right_def s1'_def [symmetric] by (rule walk_right_span) (rule hb)
  then have R: "i \<le> high_bound s" "high_bound s < length spec"
    "total_intensity s = total_intensity s1
       + (\<Sum>k = i + 1 ..< high_bound s + 1. getIntensity (spec ! k))"
    "\<forall>k. i < k \<and> k \<le> high_bound s \<longrightarrow> \<not> picked ! k"
    "low_bound s = low_bound s1"
    using assms(2) by (simp_all add: right_span_def s1'_def L(4))
  show "low_bound s \<le> i" using L(1) R(5) by simp
  show "i \<le> high_bound s" using R(1) .
  show "high_bound s < length spec" using R(2) .
  show "\<forall>k. low_bound s \<le> k \<and> k \<le> high_bound s \<and> k \<noteq> i \<longrightarrow> \<not> picked ! k"
    using L(3) R(4,5) by (metis nat_neq_iff)
  have "(\<Sum>k = low_bound s .. high_bound s. getIntensity (spec ! k))
      = (\<Sum>k = low_bound s1 ..< i. getIntensity (spec ! k))
        + (\<Sum>k = i ..< high_bound s + 1. getIntensity (spec ! k))"
    using L(1) R(1,5)
    by (simp add: sum.atLeastLessThan_concat atLeastLessThanSuc_atLeastAtMost [symmetric])
  also have "(\<Sum>k = i ..< high_bound s + 1. getIntensity (spec ! k))
      = getIntensity (spec ! i) + (\<Sum>k = i + 1 ..< high_bound s + 1. getIntensity (spec ! k))"
    using R(1) sum.atLeast_Suc_lessThan [of i "high_bound s + 1" "\<lambda>k. getIntensity (spec ! k)"]
    by simp
  finally show "total_intensity s
      = (\<Sum>k = low_bound s .. high_bound s. getIntensity (spec ! k))"
    using L(2) R(3) by simp
qed

lemma span_loop_Inr:
  assumes "span_loop spec ti js acc = Inr acc'"
  shows "length (fst acc') = length (fst acc)"
    and "\<forall>k < length (fst acc). fst acc' ! k = (fst acc ! k \<or> k \<in> set js)"
    and "snd acc' = snd acc
           + sum_list (map (\<lambda>j. getPos (spec ! j) * (getIntensity (spec ! j) / ti)) js)"
  using assms
proof (induction js arbitrary: acc)
  case Nil
  {
    case 1 then show ?case by simp
  next
    case 2 then show ?case by simp
  next
    case 3 then show ?case by simp
  }
next
  case (Cons j js)
  {
    case 1
    then have r: "span_loop spec ti js ((fst acc)[j := True],
              snd acc + getPos (spec ! j) * (getIntensity (spec ! j) / ti)) = Inr acc'"
      by (simp split: if_splits)
    from Cons.IH(1) [OF r] show ?case by simp
  next
    case 2
    then have r: "span_loop spec ti js ((fst acc)[j := True],
              snd acc + getPos (spec ! j) * (getIntensity (spec ! j) / ti)) = Inr acc'"
      by (simp split: if_splits)
    have u: "(fst acc)[j := True] ! k = (fst acc ! k \<or> k = j)" if "k < length (fst acc)" for k
      using that by (cases "k = j") simp_all
    from Cons.IH(2) [OF r] show ?case by (auto simp: u)
  next
    case 3
    then have r: "span_loop spec ti js ((fst acc)[j := True],
              snd acc + getPos (spec ! j) * (getIntensity (spec ! j) / ti)) = Inr acc'"
      by (simp split: if_splits)
    from Cons.IH(3) [OF r] show ?case by simp
  }
qed

lemma span_loop_succeeds:
  "ti \<noteq> 0 \<Longrightarrow> \<exists>acc'. span_loop spec ti js acc = Inr acc'"
  by (induction js arbitrary: acc) simp_all


lemma visit_seed_cases:
  assumes "visit_seed P spec i st = Inr st'"
  obtains (skip) "st' = st"
  | (accept) s pk pos where "\<not> picked_flags st ! i"
      "expand_seed P spec (picked_flags st) i = Some s"
      "span_loop spec (total_intensity s) [low_bound s ..< high_bound s + 1]
         (picked_flags st, 0) = Inr (pk, pos)"
      "st' = \<lparr>picked_flags = pk,
              new_spec = new_spec st @ [\<lparr>getPos = pos, getIntensity = total_intensity s\<rparr>],
              spans = spans st @ [(low_bound s, high_bound s)]\<rparr>"
  using assms
  by (auto simp: visit_seed_def split: if_splits option.splits sum.splits prod.splits)

lemma accepted_span_unpicked:
  assumes "i < length spec" "\<not> picked ! i" "expand_seed P spec picked i = Some s"
  shows "\<forall>k. low_bound s \<le> k \<and> k \<le> high_bound s \<longrightarrow> \<not> picked ! k"
  using expand_seed_Some(5) [OF assms(3,1)] assms(2) by blast

lemma visit_seed_spans_ok:
  assumes ok: "spans_ok spec st" and i: "i < length spec"
    and v: "visit_seed P spec i st = Inr st'"
  shows "spans_ok spec st'"
  using v
proof (cases rule: visit_seed_cases)
  case skip
  with ok show ?thesis by simp
next
  case (accept s pk pos)
  let ?l = "low_bound s" and ?h = "high_bound s"
  note E = expand_seed_Some [OF accept(2) i]
  note U = accepted_span_unpicked [OF i accept(1,2)]
  note S = span_loop_Inr [OF accept(3), simplified]
  from ok have len: "length (picked_flags st) = length spec"
    and ns: "length (new_spec st) = length (spans st)"
    and bd: "\<forall>x\<in>set (spans st). fst x \<le> snd x \<and> snd x < length spec"
    and pk: "\<forall>k<length spec. picked_flags st ! k \<longleftrightarrow> (\<exists>x\<in>set (spans st). fst x \<le> k \<and> k \<le> snd x)"
    and dj: "\<forall>a b. a < b \<and> b < length (spans st) \<longrightarrow>
            snd (spans st ! a) < fst (spans st ! b) \<or> snd (spans st ! b) < fst (spans st ! a)"
    by (simp_all add: spans_ok_def)
  have new_disjoint: "snd x < ?l \<or> ?h < fst x" if x: "x \<in> set (spans st)" for x
  proof (rule ccontr)
    assume "\<not> (snd x < ?l \<or> ?h < fst x)"
    then have c: "?l \<le> snd x" "fst x \<le> ?h" by simp_all
    define k where "k = max (fst x) ?l"
    from bd x have b: "fst x \<le> snd x" "snd x < length spec" by auto
    from c b E(1,2) have k: "fst x \<le> k" "k \<le> snd x" "?l \<le> k" "k \<le> ?h"
      by (simp_all add: k_def)
    with b have "k < length spec" by simp
    with pk x k(1,2) have "picked_flags st ! k" by blast
    with U k(3,4) show False by blast
  qed
  from accept(4) have f: "picked_flags st' = pk" "spans st' = spans st @ [(?l, ?h)]"
    "length (new_spec st') = Suc (length (new_spec st))"
    by simp_all
  show ?thesis
    unfolding spans_ok_def f
  proof (intro conjI allI impI)
    show "length pk = length spec" using S(1) len by simp
    show "Suc (length (new_spec st)) = length (spans st @ [(?l, ?h)])" using ns by simp
    show "\<forall>x\<in>set (spans st @ [(?l, ?h)]). fst x \<le> snd x \<and> snd x < length spec"
      using bd E(1,2,3) by auto
    show "pk ! k \<longleftrightarrow> (\<exists>x\<in>set (spans st @ [(?l, ?h)]). fst x \<le> k \<and> k \<le> snd x)"
      if "k < length spec" for k
      using S(2) pk len that by auto
    fix a b
    assume "a < b \<and> b < length (spans st @ [(?l, ?h)])"
    then have ab: "a < b" "b \<le> length (spans st)" by simp_all
    show "snd ((spans st @ [(?l, ?h)]) ! a) < fst ((spans st @ [(?l, ?h)]) ! b)
        \<or> snd ((spans st @ [(?l, ?h)]) ! b) < fst ((spans st @ [(?l, ?h)]) ! a)"
    proof (cases "b < length (spans st)")
      case True
      with ab dj show ?thesis by (simp add: nth_append)
    next
      case False
      with ab have b: "b = length (spans st)" by simp
      with ab have "spans st ! a \<in> set (spans st)" by simp
      from new_disjoint [OF this] b ab show ?thesis by (simp add: nth_append)
    qed
  qed
qed

lemma visit_seeds_spans_ok:
  assumes "spans_ok spec st" and "\<forall>i\<in>set is. i < length spec"
    and "visit_seeds P spec is st = Inr st'"
  shows "spans_ok spec st'"
  using assms
proof (induction "is" arbitrary: st)
  case Nil
  then show ?case by simp
next
  case (Cons i "is")
  from Cons.prems(3) obtain t where t: "visit_seed P spec i st = Inr t"
    and r: "visit_seeds P spec is t = Inr st'"
    by (auto split: sum.splits)
  from Cons.prems(2) have "i < length spec" by simp
  from visit_seed_spans_ok [OF Cons.prems(1) this t] Cons.prems(2) r
  show ?case by (intro Cons.IH) auto
qed

lemma visit_order_in_range: "\<forall>i\<in>set (visit_order P spec). i < length spec"
proof (cases "sequential P")
  case True
  then show ?thesis by (simp add: visit_order_def)
next
  case False
  have "set (map snd (rev (sort (map (\<lambda>i. (getIntensity (spec ! i), i)) [0 ..< length spec]))))
      = {0 ..< length spec}"
    by (simp add: image_image)
  with False show ?thesis by (simp add: visit_order_def del: set_map)
qed

lemma spans_ok_initial:
  "spans_ok spec \<lparr>picked_flags = replicate (length spec) False, new_spec = [], spans = []\<rparr>"
  by (simp add: spans_ok_def)

lemma pick_spectrum_spans_ok: "pick_spectrum P spec = Inr st \<Longrightarrow> spans_ok spec st"
  unfolding pick_spectrum_def
  by (rule visit_seeds_spans_ok [OF spans_ok_initial visit_order_in_range])

section \<open>The composite peak of an accepted seed\<close>



lemma visit_seed_succeeds:
  assumes "\<not> picked_flags st ! i" and "expand_seed P spec (picked_flags st) i = Some s"
    and "total_intensity s \<noteq> 0"
  shows "\<exists>t. visit_seed P spec i st = Inr t"
proof -
  from span_loop_succeeds [OF assms(3)] obtain acc' where
    "span_loop spec (total_intensity s) [low_bound s ..< high_bound s + 1]
       (picked_flags st, 0) = Inr acc'" by blast
  then show ?thesis
    using assms(1,2) by (cases acc') (simp add: visit_seed_def)
qed





section \<open>The accepted spans are disjoint\<close>

lemma pick_spectrum_ex_peaks6:
  "pick_spectrum ex_params2 ex_peaks6 =
     Inr \<lparr>picked_flags = [True, True, True, True, True, True],
          new_spec = [\<lparr>getPos = 2, getIntensity = 7\<rparr>, \<lparr>getPos = 5, getIntensity = 7\<rparr>],
          spans = [(0, 2), (3, 5)]\<rparr>"
  by code_simp

lemma pick_spectrum_ex_peaks6_by_intensity:
  "pick_spectrum (ex_params2\<lparr>sequential := False\<rparr>) ex_peaks6 =
     Inr \<lparr>picked_flags = [True, True, True, True, True, True],
          new_spec = [\<lparr>getPos = 5, getIntensity = 7\<rparr>, \<lparr>getPos = 2, getIntensity = 7\<rparr>],
          spans = [(3, 5), (0, 2)]\<rparr>"
  by code_simp

lemma visit_seed_positive:
  assumes "\<forall>p\<in>set spec. 0 < getIntensity p" and "i < length spec"
  shows "\<exists>t. visit_seed P spec i st = Inr t"
proof (cases "picked_flags st ! i")
  case True
  then show ?thesis by (simp add: visit_seed_def)
next
  case False
  show ?thesis
  proof (cases "expand_seed P spec (picked_flags st) i")
    case None
    with False show ?thesis by (simp add: visit_seed_def)
  next
    case (Some s)
    note E = expand_seed_Some [OF Some assms(2)]
    have "0 < (\<Sum>k = low_bound s .. high_bound s. getIntensity (spec ! k))"
    proof (rule sum_pos)
      show "finite {low_bound s .. high_bound s}" by simp
      show "{low_bound s .. high_bound s} \<noteq> {}" using E(1,2) by simp
      fix k assume "k \<in> {low_bound s .. high_bound s}"
      with E(3) have "k < length spec" by simp
      with assms(1) show "0 < getIntensity (spec ! k)" by simp
    qed
    with E(4) have "total_intensity s \<noteq> 0" by simp
    from visit_seed_succeeds [OF False Some this] show ?thesis .
  qed
qed

lemma visit_seeds_positive:
  assumes "\<forall>p\<in>set spec. 0 < getIntensity p" and "\<forall>i\<in>set is. i < length spec"
  shows "\<exists>t. visit_seeds P spec is st = Inr t"
  using assms(2)
proof (induction "is" arbitrary: st)
  case Nil
  then show ?case by simp
next
  case (Cons i "is")
  from visit_seed_positive [OF assms(1), of i P st] Cons.prems obtain t where
    t: "visit_seed P spec i st = Inr t" by auto
  from Cons.IH [of t] Cons.prems obtain u where "visit_seeds P spec is t = Inr u" by auto
  with t show ?case by simp
qed

lemma pick_spectrum_positive:
  "\<forall>p\<in>set spec. 0 < getIntensity p \<Longrightarrow> \<exists>st. pick_spectrum P spec = Inr st"
  unfolding pick_spectrum_def
  by (rule visit_seeds_positive [OF _ visit_order_in_range])

text \<open>
  Claim C10. After the peak picking of one spectrum, in either order of the seeds, the
  accepted spans are pairwise disjoint, there is one emitted peak for each span, and a
  sample is flagged as picked exactly if it lies in one of the spans. When a seed is
  accepted, no sample of its span was picked before, so every sample is marked at most
  once and belongs to at most one composite peak. The peak picking of a spectrum
  completes when all its intensities are positive.
\<close>

theorem accepted_spans_disjoint:
  "(pick_spectrum P spec = Inr st \<longrightarrow>
      (\<forall>a b. a < b \<and> b < length (spans st) \<longrightarrow>
         snd (spans st ! a) < fst (spans st ! b) \<or> snd (spans st ! b) < fst (spans st ! a))
      \<and> length (new_spec st) = length (spans st)
      \<and> (\<forall>k<length spec. picked_flags st ! k \<longleftrightarrow>
            (\<exists>x\<in>set (spans st). fst x \<le> k \<and> k \<le> snd x)))
   \<and> (i < length spec \<and> \<not> picked ! i \<and> expand_seed P spec picked i = Some s \<longrightarrow>
        (\<forall>k. low_bound s \<le> k \<and> k \<le> high_bound s \<longrightarrow> \<not> picked ! k))
   \<and> ((\<forall>p\<in>set spec. 0 < getIntensity p) \<longrightarrow> (\<exists>st'. pick_spectrum P spec = Inr st'))"
  using pick_spectrum_spans_ok [of P spec st] accepted_span_unpicked [of i spec picked P s]
    pick_spectrum_positive [of spec P]
  unfolding spans_ok_def by blast

theorem accepted_spans_disjoint_witness:
  "pick_spectrum ex_params2 ex_peaks6 =
     Inr \<lparr>picked_flags = [True, True, True, True, True, True],
          new_spec = [\<lparr>getPos = 2, getIntensity = 7\<rparr>, \<lparr>getPos = 5, getIntensity = 7\<rparr>],
          spans = [(0, 2), (3, 5)]\<rparr>
   \<and> pick_spectrum (ex_params2\<lparr>sequential := False\<rparr>) ex_peaks6 =
     Inr \<lparr>picked_flags = [True, True, True, True, True, True],
          new_spec = [\<lparr>getPos = 5, getIntensity = 7\<rparr>, \<lparr>getPos = 2, getIntensity = 7\<rparr>],
          spans = [(3, 5), (0, 2)]\<rparr>
   \<and> (snd ([(0, 2), (3, 5 :: nat)] ! 0) < fst ([(0 :: nat, 2 :: nat), (3, 5)] ! 1)
        \<or> snd ([(0 :: nat, 2 :: nat), (3, 5)] ! 1) < fst ([(0, 2), (3, 5 :: nat)] ! 0))
   \<and> (snd ([(3, 5), (0, 2 :: nat)] ! 0) < fst ([(3 :: nat, 5 :: nat), (0, 2)] ! 1)
        \<or> snd ([(3 :: nat, 5 :: nat), (0, 2)] ! 1) < fst ([(3, 5), (0, 2 :: nat)] ! 0))"
  using accepted_spans_disjoint [where P = ex_params2 and spec = ex_peaks6
      and st = "\<lparr>picked_flags = [True, True, True, True, True, True],
          new_spec = [\<lparr>getPos = 2, getIntensity = 7\<rparr>, \<lparr>getPos = 5, getIntensity = 7\<rparr>],
          spans = [(0, 2), (3, 5)]\<rparr>"]
    accepted_spans_disjoint [where P = "ex_params2\<lparr>sequential := False\<rparr>"
      and spec = ex_peaks6
      and st = "\<lparr>picked_flags = [True, True, True, True, True, True],
          new_spec = [\<lparr>getPos = 5, getIntensity = 7\<rparr>, \<lparr>getPos = 2, getIntensity = 7\<rparr>],
          spans = [(3, 5), (0, 2)]\<rparr>"]
    pick_spectrum_ex_peaks6 pick_spectrum_ex_peaks6_by_intensity
  by simp

end
